theory Spec2Isabelle
  imports Complex_Main "HOL-Library.AList"
begin

section \<open>Data model of \<^verbatim>\<open>comment_system.py\<close>\<close>

text \<open>
  A \<^verbatim>\<open>Comment\<close> object is created only by \<^verbatim>\<open>add_comment\<close>, which gives it a fresh id
  and files it in the dictionary \<^verbatim>\<open>self.comments\<close> under that id. The id therefore
  serves as the object's address: the dictionary \<open>comments\<close> is the object store, and
  the lists \<^verbatim>\<open>Comment.replies\<close> and \<^verbatim>\<open>Post.comments\<close>, which hold references in Python,
  hold ids here. A mutation through one reference is seen through every other one,
  as in Python. Two distinct objects differ in their \<^verbatim>\<open>id\<close> field, so the dataclass
  equality used by \<^verbatim>\<open>in\<close> and \<^verbatim>\<open>list.remove\<close> is equality of ids.

  Python integers are \<open>int\<close>. A \<open>char\<close> stands for a code point below 256.
  The reading of the clock (\<^verbatim>\<open>time.time()\<close>) is an argument of \<open>add_comment\<close>.
  The back reference \<^verbatim>\<open>Post.comment_system\<close> is left out.
\<close>

datatype error = ValueError | KeyError

record comment =
  id_comment :: int
  user :: string
  content :: string
  timestamp :: real
  parent_comment_id :: "int option"
  replies :: "int list"
  vote_count :: int
  collapsed :: bool

record post =
  id_post :: int
  title :: string
  comments_post :: "int list"

text \<open>
  \<^verbatim>\<open>self.posts\<close> is iterated by \<^verbatim>\<open>delete_comment\<close>, so it keeps its insertion order
  (an association list). \<open>lock\<close> is the state of \<^verbatim>\<open>self.lock\<close>, a
  \<^verbatim>\<open>threading.Lock()\<close>: held or free.
\<close>

record store =
  posts :: "(int \<times> post) list"
  comments :: "int \<rightharpoonup> comment"
  user_comments :: "string \<rightharpoonup> int list"
  next_comment_id :: int
  next_post_id :: int
  lock :: bool

definition init_store :: store where
  "init_store = \<lparr>posts = [], comments = Map.empty, user_comments = Map.empty,
     next_comment_id = 1, next_post_id = 1, lock = False\<rparr>"

section \<open>Control: the lock and loops\<close>

text \<open>
  A call that does not return has the value \<open>None\<close>. \<^verbatim>\<open>with self.lock:\<close> acquires
  the lock, which blocks for ever when the lock is held (a \<^verbatim>\<open>threading.Lock\<close> is
  not re-entrant, and the model has one thread), runs the body, and releases the lock
  on every way out, a raised error included.
\<close>

definition with_lock :: "(store \<Rightarrow> ('a \<times> store) option) \<Rightarrow> store \<Rightarrow> ('a \<times> store) option" where
  "with_lock body s =
     (if lock s then None
      else Option.bind (body (s\<lparr>lock := True\<rparr>)) (\<lambda>(r, s'). Some (r, s'\<lparr>lock := False\<rparr>)))"

text \<open>A \<^verbatim>\<open>for\<close> loop over a list whose body may not return.\<close>

fun for_loop :: "('a \<Rightarrow> 'b \<Rightarrow> 'b option) \<Rightarrow> 'a list \<Rightarrow> 'b \<Rightarrow> 'b option" where
  "for_loop body [] acc = Some acc"
| "for_loop body (x # xs) acc = Option.bind (body x acc) (for_loop body xs)"

lemma for_loop_mono [partial_function_mono]:
  assumes "\<And>x acc. mono_option (\<lambda>f. body f x acc)"
  shows "mono_option (\<lambda>f. for_loop (body f) xs acc)"
proof (induction xs arbitrary: acc)
  case Nil
  show ?case by (simp add: option.const_mono)
next
  case (Cons x xs)
  show ?case
    unfolding for_loop.simps
    by (rule bind_mono) (rule assms, rule Cons.IH)
qed

lemma with_lock_mono [partial_function_mono]:
  assumes "\<And>t. mono_option (\<lambda>f. body f t)"
  shows "mono_option (\<lambda>f. with_lock (body f) s)"
  unfolding with_lock_def
  by (intro partial_function_mono assms)

section \<open>Strings\<close>

text \<open>
  \<^verbatim>\<open>str.strip()\<close> removes leading and trailing whitespace; the whitespace code points
  below 256 are 9 to 13, 28 to 32, 133 and 160.
\<close>

definition is_space :: "char \<Rightarrow> bool" where
  "is_space c = (of_char c \<in> {9, 10, 11, 12, 13, 28, 29, 30, 31, 32, 133, 160 :: nat})"

definition strip :: "string \<Rightarrow> string" where
  "strip x = rev (dropWhile is_space (rev (dropWhile is_space x)))"

section \<open>Operations\<close>

subsection \<open>\<^verbatim>\<open>create_post\<close>\<close>

definition create_post :: "store \<Rightarrow> string \<Rightarrow> (post \<times> store) option" where
  "create_post s title' =
     with_lock (\<lambda>s.
       let post_id = next_post_id s;
           p = \<lparr>id_post = post_id, title = title', comments_post = []\<rparr>
       in Some (p, s\<lparr>next_post_id := post_id + 1,
                      posts := AList.update post_id p (posts s)\<rparr>)) s"

subsection \<open>\<^verbatim>\<open>_get_comment_depth\<close>\<close>

text \<open>The \<^verbatim>\<open>while\<close> loop, with its two variables; it runs for ever on a cyclic parent chain.\<close>

partial_function (option) depth_loop :: "(int \<rightharpoonup> comment) \<Rightarrow> int option \<Rightarrow> nat \<Rightarrow> nat option" where
  "depth_loop m current_id depth =
     (case current_id of
        None \<Rightarrow> Some depth
      | Some i \<Rightarrow>
          (case m i of
             None \<Rightarrow> Some depth
           | Some current_comment \<Rightarrow>
               depth_loop m (parent_comment_id current_comment)
                 (if parent_comment_id current_comment \<noteq> None then depth + 1 else depth)))"

declare depth_loop.simps [code]

definition get_comment_depth :: "(int \<rightharpoonup> comment) \<Rightarrow> int \<Rightarrow> nat option" where
  "get_comment_depth m comment_id = depth_loop m (Some comment_id) 0"

subsection \<open>\<^verbatim>\<open>_count_total_replies\<close> and \<^verbatim>\<open>should_collapse_thread\<close>\<close>

text \<open>
  The argument is the reference to the comment. A reference that the store does not
  hold has no counterpart in Python, where the list holds the object; the model gives
  no result there.
\<close>

partial_function (option) count_total_replies :: "(int \<rightharpoonup> comment) \<Rightarrow> int \<Rightarrow> nat option" where
  "count_total_replies m a =
     (case m a of
        None \<Rightarrow> None
      | Some c \<Rightarrow>
          for_loop (\<lambda>reply count. Option.bind (count_total_replies m reply) (\<lambda>k. Some (count + k)))
            (replies c) (length (replies c)))"

declare count_total_replies.simps [code]

definition should_collapse_thread :: "(int \<rightharpoonup> comment) \<Rightarrow> int \<Rightarrow> bool option" where
  "should_collapse_thread m a = map_option (\<lambda>n. n > 10) (count_total_replies m a)"

subsection \<open>\<^verbatim>\<open>add_comment\<close>\<close>

text \<open>Lines 88 to 94: the constructor call, with the defaults of the dataclass.\<close>

definition new_comment :: "int \<Rightarrow> string \<Rightarrow> string \<Rightarrow> real \<Rightarrow> int option \<Rightarrow> comment" where
  "new_comment n u tx now parent = \<lparr>id_comment = n, user = u, content = tx,
     timestamp = now, parent_comment_id = parent, replies = [], vote_count = 0,
     collapsed = False\<rparr>"

text \<open>Lines 85 to 111: the new comment is built, filed and attached.\<close>

definition insert_comment ::
  "store \<Rightarrow> int \<Rightarrow> string \<Rightarrow> string \<Rightarrow> int option \<Rightarrow> real \<Rightarrow> ((error + int option) \<times> store) option" where
  "insert_comment s post_id user' content' parent now =
     (let comment_id = next_comment_id s;
          s1 = s\<lparr>next_comment_id := comment_id + 1,
                 comments := (comments s)(comment_id \<mapsto> new_comment comment_id user' content' now parent),
                 user_comments := (user_comments s)(user' \<mapsto>
                   (case user_comments s user' of None \<Rightarrow> [] | Some l \<Rightarrow> l) @ [comment_id])\<rparr>
      in case parent of
           None \<Rightarrow>
             (case map_of (posts s1) post_id of
                None \<Rightarrow> Some (Inl KeyError, s1)
              | Some p \<Rightarrow>
                  Some (Inr (Some comment_id),
                    s1\<lparr>posts := AList.update post_id
                      (p\<lparr>comments_post := comments_post p @ [comment_id]\<rparr>) (posts s1)\<rparr>))
         | Some pid \<Rightarrow>
             (case comments s1 pid of
                None \<Rightarrow> Some (Inl KeyError, s1)
              | Some parent_comment \<Rightarrow>
                  let grown = parent_comment\<lparr>replies := replies parent_comment @ [comment_id]\<rparr>;
                      s2 = s1\<lparr>comments := (comments s1)(pid \<mapsto> grown)\<rparr>
                  in Option.bind (should_collapse_thread (comments s2) pid) (\<lambda>b.
                       Some (Inr (Some comment_id),
                         if b then s2\<lparr>comments := (comments s2)(pid \<mapsto> grown\<lparr>collapsed := True\<rparr>)\<rparr>
                         else s2))))"

definition add_comment ::
  "store \<Rightarrow> int \<Rightarrow> string \<Rightarrow> string \<Rightarrow> int option \<Rightarrow> real \<Rightarrow> ((error + int option) \<times> store) option" where
  "add_comment s post_id user' content' parent now =
     (if user' = [] \<or> strip content' = [] then Some (Inr None, s)
      else
        with_lock (\<lambda>s.
          if map_of (posts s) post_id = None then Some (Inr None, s)
          else
            (case parent of
               None \<Rightarrow> insert_comment s post_id user' content' parent now
             | Some pid \<Rightarrow>
                 if comments s pid = None then Some (Inr None, s)
                 else
                   Option.bind (get_comment_depth (comments s) pid) (\<lambda>parent_depth.
                     if parent_depth \<ge> 4 then Some (Inr None, s)
                     else insert_comment s post_id user' content' parent now))) s)"

subsection \<open>\<^verbatim>\<open>get_comments_view\<close> and \<^verbatim>\<open>_flatten_comments\<close>\<close>

partial_function (option) flatten_comments :: "(int \<rightharpoonup> comment) \<Rightarrow> int list \<Rightarrow> int list option" where
  "flatten_comments m cs =
     for_loop (\<lambda>a flat_list.
        case m a of
          None \<Rightarrow> None
        | Some c \<Rightarrow>
            if \<not> collapsed c
            then Option.bind (flatten_comments m (replies c)) (\<lambda>sub. Some (flat_list @ [a] @ sub))
            else Some (flat_list @ [a]))
       cs []"

declare flatten_comments.simps [code]

definition get_comments_view :: "store \<Rightarrow> int \<Rightarrow> string \<Rightarrow> ((error + int list) \<times> store) option" where
  "get_comments_view s post_id view_type =
     with_lock (\<lambda>s.
       case map_of (posts s) post_id of
         None \<Rightarrow> Some (Inr [], s)
       | Some p \<Rightarrow>
           if view_type = ''tree'' then Some (Inr (comments_post p), s)
           else if view_type = ''flat'' then
             Option.bind (flatten_comments (comments s) (comments_post p)) (\<lambda>fl. Some (Inr fl, s))
           else Some (Inl ValueError, s)) s"

subsection \<open>Votes and manual collapse\<close>

definition upvote_comment :: "store \<Rightarrow> int \<Rightarrow> (bool \<times> store) option" where
  "upvote_comment s comment_id =
     with_lock (\<lambda>s.
       case comments s comment_id of
         Some c \<Rightarrow> Some (True, s\<lparr>comments := (comments s)(comment_id \<mapsto> c\<lparr>vote_count := vote_count c + 1\<rparr>)\<rparr>)
       | None \<Rightarrow> Some (False, s)) s"

definition downvote_comment :: "store \<Rightarrow> int \<Rightarrow> (bool \<times> store) option" where
  "downvote_comment s comment_id =
     with_lock (\<lambda>s.
       case comments s comment_id of
         Some c \<Rightarrow> Some (True, s\<lparr>comments := (comments s)(comment_id \<mapsto> c\<lparr>vote_count := vote_count c - 1\<rparr>)\<rparr>)
       | None \<Rightarrow> Some (False, s)) s"

definition toggle_collapse :: "store \<Rightarrow> int \<Rightarrow> (bool \<times> store) option" where
  "toggle_collapse s comment_id =
     with_lock (\<lambda>s.
       case comments s comment_id of
         Some c \<Rightarrow> Some (True, s\<lparr>comments := (comments s)(comment_id \<mapsto> c\<lparr>collapsed := \<not> collapsed c\<rparr>)\<rparr>)
       | None \<Rightarrow> Some (False, s)) s"

subsection \<open>\<^verbatim>\<open>get_user_comments\<close>\<close>

text \<open>The list comprehension: each \<^verbatim>\<open>self.comments[comment_id]\<close> raises on a missing key.\<close>

fun lookup_all :: "(int \<rightharpoonup> comment) \<Rightarrow> int list \<Rightarrow> error + int list" where
  "lookup_all m [] = Inr []"
| "lookup_all m (i # rest) =
     (case m i of
        None \<Rightarrow> Inl KeyError
      | Some c \<Rightarrow> (case lookup_all m rest of Inl e \<Rightarrow> Inl e | Inr cs \<Rightarrow> Inr (i # cs)))"

definition get_user_comments :: "store \<Rightarrow> string \<Rightarrow> ((error + int list) \<times> store) option" where
  "get_user_comments s user' =
     with_lock (\<lambda>s.
       case user_comments s user' of
         None \<Rightarrow> Some (Inr [], s)
       | Some l \<Rightarrow> Some (lookup_all (comments s) l, s)) s"

subsection \<open>\<^verbatim>\<open>delete_comment\<close>\<close>

text \<open>Lines 177 to 180: the first post that lists the comment loses it.\<close>

fun remove_from_posts :: "int \<Rightarrow> (int \<times> post) list \<Rightarrow> (int \<times> post) list" where
  "remove_from_posts a [] = []"
| "remove_from_posts a ((k, p) # ps) =
     (if a \<in> set (comments_post p)
      then (k, p\<lparr>comments_post := remove1 a (comments_post p)\<rparr>) # ps
      else (k, p) # remove_from_posts a ps)"

text \<open>Lines 176 to 184: the comment leaves its container.\<close>

definition detach :: "store \<Rightarrow> int \<Rightarrow> comment \<Rightarrow> error + store" where
  "detach s comment_id c =
     (case parent_comment_id c of
        None \<Rightarrow> Inr (s\<lparr>posts := remove_from_posts comment_id (posts s)\<rparr>)
      | Some pid \<Rightarrow>
          (case comments s pid of
             None \<Rightarrow> Inl KeyError
           | Some parent \<Rightarrow>
               Inr (if comment_id \<in> set (replies parent)
                    then s\<lparr>comments := (comments s)(pid \<mapsto>
                           parent\<lparr>replies := remove1 comment_id (replies parent)\<rparr>)\<rparr>
                    else s)))"

text \<open>Lines 186 and 187.\<close>

definition forget_author :: "store \<Rightarrow> int \<Rightarrow> comment \<Rightarrow> store" where
  "forget_author s comment_id c =
     (case user_comments s (user c) of
        None \<Rightarrow> s
      | Some l \<Rightarrow>
          if comment_id \<in> set l
          then s\<lparr>user_comments := (user_comments s)(user c \<mapsto> remove1 comment_id l)\<rparr>
          else s)"

text \<open>
  The method calls itself for every reply while it holds the lock. The replies are read
  from the object after it has left its container (the object is still filed: the two
  steps before remove no key of \<open>comments\<close>), \<^verbatim>\<open>reply.id\<close> is read from the reply, and
  a raised error ends the loop and leaves the \<^verbatim>\<open>with\<close> block, which releases the lock.
\<close>

partial_function (option) delete_comment :: "store \<Rightarrow> int \<Rightarrow> ((error + bool) \<times> store) option" where
  "delete_comment s comment_id =
     with_lock (\<lambda>s.
       case comments s comment_id of
         None \<Rightarrow> Some (Inr False, s)
       | Some c \<Rightarrow>
           (case detach s comment_id c of
              Inl e \<Rightarrow> Some (Inl e, s)
            | Inr s1 \<Rightarrow>
                let s2 = forget_author s1 comment_id c;
                    replies_to_delete = (case comments s2 comment_id of None \<Rightarrow> [] | Some c' \<Rightarrow> replies c')
                in Option.bind
                     (for_loop (\<lambda>reply (r, s).
                          case r of
                            Inl e \<Rightarrow> Some (Inl e, s)
                          | Inr _ \<Rightarrow>
                              (case comments s reply of
                                 None \<Rightarrow> None
                               | Some rc \<Rightarrow> delete_comment s (id_comment rc)))
                        replies_to_delete (Inr True, s2))
                     (\<lambda>(r, s3).
                        case r of
                          Inl e \<Rightarrow> Some (Inl e, s3)
                        | Inr _ \<Rightarrow>
                            if comments s3 comment_id = None then Some (Inl KeyError, s3)
                            else Some (Inr True, s3\<lparr>comments := (comments s3)(comment_id := None)\<rparr>)))) s"

declare delete_comment.simps [code]

subsection \<open>The client loop of \<^verbatim>\<open>test_auto_collapse\<close>\<close>

text \<open>
  Lines 72 and 73 of \<^verbatim>\<open>test_comment_system.py\<close>: replies to one parent, one after the
  other; the results of the calls are dropped, and a raised error ends the loop.
\<close>

fun add_replies ::
  "store \<Rightarrow> int \<Rightarrow> int \<Rightarrow> (string \<times> string \<times> real) list \<Rightarrow> (error + store) option" where
  "add_replies s k p [] = Some (Inr s)"
| "add_replies s k p ((u, tx, now) # rest) =
     Option.bind (add_comment s k u tx (Some p) now) (\<lambda>(r, s').
       case r of Inl e \<Rightarrow> Some (Inl e) | Inr _ \<Rightarrow> add_replies s' k p rest)"

section \<open>Reachable stores\<close>

text \<open>The stores a client can obtain: from the empty store, by calls that return.\<close>

inductive reachable :: "store \<Rightarrow> bool" where
  r_init: "reachable init_store"
| r_create_post: "reachable s \<Longrightarrow> create_post s t = Some (p, s') \<Longrightarrow> reachable s'"
| r_add_comment: "reachable s \<Longrightarrow> add_comment s post_id u c parent now = Some (r, s') \<Longrightarrow> reachable s'"
| r_get_comments_view: "reachable s \<Longrightarrow> get_comments_view s post_id v = Some (rv, s') \<Longrightarrow> reachable s'"
| r_upvote: "reachable s \<Longrightarrow> upvote_comment s a = Some (b, s') \<Longrightarrow> reachable s'"
| r_downvote: "reachable s \<Longrightarrow> downvote_comment s a = Some (b, s') \<Longrightarrow> reachable s'"
| r_toggle: "reachable s \<Longrightarrow> toggle_collapse s a = Some (b, s') \<Longrightarrow> reachable s'"
| r_get_user_comments: "reachable s \<Longrightarrow> get_user_comments s u = Some (rv, s') \<Longrightarrow> reachable s'"
| r_delete: "reachable s \<Longrightarrow> delete_comment s a = Some (rd, s') \<Longrightarrow> reachable s'"

section \<open>Well-formed stores and the notions of the specification\<close>

text \<open>
  The comment graph of a store made by the operations: every object is filed under its
  own id, ids are positive and below the counter, a reply list has no duplicates, a
  parent is older than its reply and lists it, and every listed reply is in the store
  and points back.
\<close>

definition graph_ok :: "(int \<rightharpoonup> comment) \<Rightarrow> int \<Rightarrow> bool" where
  "graph_ok m n \<longleftrightarrow> 0 < n \<and>
     (\<forall>i c. m i = Some c \<longrightarrow>
        id_comment c = i \<and> 0 < i \<and> i < n \<and> distinct (replies c)
        \<and> (\<forall>p. parent_comment_id c = Some p \<longrightarrow>
              p < i \<and> (\<exists>pc. m p = Some pc \<and> i \<in> set (replies pc)))
        \<and> (\<forall>r \<in> set (replies c). \<exists>rc. m r = Some rc \<and> parent_comment_id rc = Some i))"

text \<open>
  The depth of the specification: the number of parent hops from a comment up to a
  comment without parent.
\<close>

inductive hops :: "(int \<rightharpoonup> comment) \<Rightarrow> int \<Rightarrow> nat \<Rightarrow> bool" where
  hops_root: "m i = Some c \<Longrightarrow> parent_comment_id c = None \<Longrightarrow> hops m i 0"
| hops_step: "m i = Some c \<Longrightarrow> parent_comment_id c = Some p \<Longrightarrow> hops m p k \<Longrightarrow> hops m i (Suc k)"

text \<open>
  The tree under a comment: its id, its collapsed flag and the trees of its replies.
  \<open>descendants\<close> is the subtree size of the specification (the sum over the direct
  replies of one plus their own size), \<open>preorder\<close> the depth-first pre-order listing
  that skips what lies under a collapsed comment.
\<close>

datatype tree = Node int bool "tree list"

inductive tree_of :: "(int \<rightharpoonup> comment) \<Rightarrow> int \<Rightarrow> tree \<Rightarrow> bool" where
  tree_ofI: "m a = Some c \<Longrightarrow> list_all2 (tree_of m) (replies c) ts \<Longrightarrow> tree_of m a (Node a (collapsed c) ts)"

fun descendants :: "tree \<Rightarrow> nat" where
  "descendants (Node a col ts) = sum_list (map (\<lambda>t. Suc (descendants t)) ts)"

fun preorder :: "tree \<Rightarrow> int list" where
  "preorder (Node a col ts) = a # (if col then [] else concat (map preorder ts))"

text \<open>The proper descendants of a comment: its replies, and theirs.\<close>

inductive below :: "(int \<rightharpoonup> comment) \<Rightarrow> int \<Rightarrow> int \<Rightarrow> bool"
  for m :: "int \<rightharpoonup> comment" where
  below_child: "m a = Some c \<Longrightarrow> r \<in> set (replies c) \<Longrightarrow> below m a r"
| below_deeper: "below m a y \<Longrightarrow> m y = Some cy \<Longrightarrow> r \<in> set (replies cy) \<Longrightarrow> below m a r"

text \<open>The posts: keys are distinct, and a listed comment is a root listed once, in one post.\<close>

definition posts_ok :: "(int \<times> post) list \<Rightarrow> (int \<rightharpoonup> comment) \<Rightarrow> int \<Rightarrow> bool" where
  "posts_ok ps m n \<longleftrightarrow> distinct (map fst ps) \<and>
     (\<forall>k p. map_of ps k = Some p \<longrightarrow>
        id_post p = k \<and> k < n \<and> distinct (comments_post p)
        \<and> (\<forall>a \<in> set (comments_post p).
              (\<exists>c. m a = Some c \<and> parent_comment_id c = None)
              \<and> (\<forall>k' p'. map_of ps k' = Some p' \<longrightarrow> a \<in> set (comments_post p') \<longrightarrow> k' = k)))"

text \<open>The per-user lists: increasing, and exactly the stored comments of that user.\<close>

definition users_ok :: "(string \<rightharpoonup> int list) \<Rightarrow> (int \<rightharpoonup> comment) \<Rightarrow> bool" where
  "users_ok uc m \<longleftrightarrow>
     (\<forall>u l. uc u = Some l \<longrightarrow>
        sorted l \<and> distinct l \<and> (\<forall>i \<in> set l. \<exists>c. m i = Some c \<and> user c = u))
     \<and> (\<forall>i c. m i = Some c \<longrightarrow> (\<exists>l. uc (user c) = Some l \<and> i \<in> set l))"

definition wf_store :: "store \<Rightarrow> bool" where
  "wf_store s \<longleftrightarrow> \<not> lock s
     \<and> graph_ok (comments s) (next_comment_id s)
     \<and> posts_ok (posts s) (comments s) (next_post_id s)
     \<and> users_ok (user_comments s) (comments s)"

section \<open>Example stores\<close>

text \<open>
  The stores of the tests and of the example of the specification: one post, then the
  comments of \<^verbatim>\<open>test_delete_comment\<close> (\<open>ex1\<close> to \<open>ex3\<close>), of \<^verbatim>\<open>test_user_index\<close>
  (\<open>ex_users\<close>), of \<^verbatim>\<open>test_max_reply_depth\<close> (\<open>ch1\<close> to \<open>ch5\<close>) and of the end-to-end
  example (\<open>sp1\<close>, \<open>sp2\<close>). The clock reads 0 throughout.
\<close>

text \<open>The store of the tests after \<^verbatim>\<open>create_post(system, "Post Title")\<close>.\<close>

definition store_one_post :: store where
  "store_one_post = \<lparr>posts = [(1, \<lparr>id_post = 1, title = ''Post Title'', comments_post = []\<rparr>)],
     comments = Map.empty, user_comments = Map.empty,
     next_comment_id = 1, next_post_id = 2, lock = False\<rparr>"

definition post1 :: "int list \<Rightarrow> (int \<times> post) list" where
  "post1 cs = [(1, \<lparr>id_post = 1, title = ''Post Title'', comments_post = cs\<rparr>)]"

definition ex1 :: store where
  "ex1 = store_one_post\<lparr>posts := post1 [1],
     comments := [1 \<mapsto> new_comment 1 ''User1'' ''First comment.'' 0 None],
     user_comments := [''User1'' \<mapsto> [1]],
     next_comment_id := 2\<rparr>"

definition ex2 :: store where
  "ex2 = ex1\<lparr>posts := post1 [1, 2],
     comments := (comments ex1)(2 \<mapsto> new_comment 2 ''User2'' ''Second comment.'' 0 None),
     user_comments := (user_comments ex1)(''User2'' \<mapsto> [2]),
     next_comment_id := 3\<rparr>"

definition ex3 :: store where
  "ex3 = ex2\<lparr>
     comments := (comments ex2)(
        3 \<mapsto> new_comment 3 ''User3'' ''Reply to first comment.'' 0 (Some 1),
        1 \<mapsto> (new_comment 1 ''User1'' ''First comment.'' 0 None)\<lparr>replies := [3]\<rparr>),
     user_comments := (user_comments ex2)(''User3'' \<mapsto> [3]),
     next_comment_id := 4\<rparr>"

definition ex3_collapsed :: store where
  "ex3_collapsed = ex3\<lparr>comments := (comments ex3)(
        1 \<mapsto> (new_comment 1 ''User1'' ''First comment.'' 0 None)\<lparr>replies := [3], collapsed := True\<rparr>)\<rparr>"

definition ex_users :: store where
  "ex_users = ex2\<lparr>posts := post1 [1, 2, 3],
     comments := (comments ex2)(3 \<mapsto> new_comment 3 ''User1'' ''Another comment from User1.'' 0 None),
     user_comments := (user_comments ex2)(''User1'' \<mapsto> [1, 3]),
     next_comment_id := 4\<rparr>"

definition ch1 :: store where
  "ch1 = store_one_post\<lparr>posts := post1 [1],
     comments := [1 \<mapsto> new_comment 1 ''User1'' ''This is a comment.'' 0 None],
     user_comments := [''User1'' \<mapsto> [1]],
     next_comment_id := 2\<rparr>"

definition ch2 :: store where
  "ch2 = ch1\<lparr>
     comments := (comments ch1)(
        2 \<mapsto> new_comment 2 ''User2'' ''Reply 1'' 0 (Some 1),
        1 \<mapsto> (new_comment 1 ''User1'' ''This is a comment.'' 0 None)\<lparr>replies := [2]\<rparr>),
     user_comments := (user_comments ch1)(''User2'' \<mapsto> [2]),
     next_comment_id := 3\<rparr>"

definition ch3 :: store where
  "ch3 = ch2\<lparr>
     comments := (comments ch2)(
        3 \<mapsto> new_comment 3 ''User3'' ''Reply 2'' 0 (Some 2),
        2 \<mapsto> (new_comment 2 ''User2'' ''Reply 1'' 0 (Some 1))\<lparr>replies := [3]\<rparr>),
     user_comments := (user_comments ch2)(''User3'' \<mapsto> [3]),
     next_comment_id := 4\<rparr>"

definition ch4 :: store where
  "ch4 = ch3\<lparr>
     comments := (comments ch3)(
        4 \<mapsto> new_comment 4 ''User4'' ''Reply 3'' 0 (Some 3),
        3 \<mapsto> (new_comment 3 ''User3'' ''Reply 2'' 0 (Some 2))\<lparr>replies := [4]\<rparr>),
     user_comments := (user_comments ch3)(''User4'' \<mapsto> [4]),
     next_comment_id := 5\<rparr>"

definition ch5 :: store where
  "ch5 = ch4\<lparr>
     comments := (comments ch4)(
        5 \<mapsto> new_comment 5 ''User5'' ''Reply 4'' 0 (Some 4),
        4 \<mapsto> (new_comment 4 ''User4'' ''Reply 3'' 0 (Some 3))\<lparr>replies := [5]\<rparr>),
     user_comments := (user_comments ch4)(''User5'' \<mapsto> [5]),
     next_comment_id := 6\<rparr>"

definition sp1 :: store where
  "sp1 = store_one_post\<lparr>posts := post1 [1],
     comments := [1 \<mapsto> new_comment 1 ''Alice'' ''hi'' 0 None],
     user_comments := [''Alice'' \<mapsto> [1]],
     next_comment_id := 2\<rparr>"

definition sp2 :: store where
  "sp2 = sp1\<lparr>
     comments := (comments sp1)(
        2 \<mapsto> new_comment 2 ''Bob'' ''hello'' 0 (Some 1),
        1 \<mapsto> (new_comment 1 ''Alice'' ''hi'' 0 None)\<lparr>replies := [2]\<rparr>),
     user_comments := (user_comments sp1)(''Bob'' \<mapsto> [2]),
     next_comment_id := 3\<rparr>"

section \<open>Basic facts\<close>

lemma dropWhile_all_iff: "(\<forall>c \<in> set (dropWhile P x). P c) \<longleftrightarrow> (\<forall>c \<in> set x. P c)"
proof
  assume a: "\<forall>c \<in> set (dropWhile P x). P c"
  have "dropWhile P x = []"
  proof (rule ccontr)
    assume ne: "dropWhile P x \<noteq> []"
    then have "\<not> P (hd (dropWhile P x))" by (rule hd_dropWhile)
    moreover have "hd (dropWhile P x) \<in> set (dropWhile P x)" using ne by simp
    ultimately show False using a by blast
  qed
  then show "\<forall>c \<in> set x. P c" by (simp add: dropWhile_eq_Nil_conv)
next
  assume "\<forall>c \<in> set x. P c"
  then show "\<forall>c \<in> set (dropWhile P x). P c" by (meson set_dropWhileD)
qed

lemma strip_empty_iff: "strip x = [] \<longleftrightarrow> (\<forall>c \<in> set x. is_space c)"
  by (simp add: strip_def dropWhile_all_iff)

lemma with_lock_free:
  "\<not> lock s \<Longrightarrow> with_lock body s = Option.bind (body (s\<lparr>lock := True\<rparr>)) (\<lambda>(r, s'). Some (r, s'\<lparr>lock := False\<rparr>))"
  by (simp add: with_lock_def)

lemma with_lock_held: "lock s \<Longrightarrow> with_lock body s = None"
  by (simp add: with_lock_def)

lemma unlock_id: "\<not> lock s \<Longrightarrow> s\<lparr>lock := False\<rparr> = s"
  by simp

lemma relock: "\<not> lock s \<Longrightarrow> s\<lparr>lock := True\<rparr>\<lparr>lock := False\<rparr> = s"
  by simp

section \<open>The comment graph: depth, trees, counting, flattening\<close>

lemma graph_ok_bounds: "graph_ok m n \<Longrightarrow> m i = Some c \<Longrightarrow> id_comment c = i \<and> 0 < i \<and> i < n"
  by (simp add: graph_ok_def)

lemma graph_ok_parent:
  "graph_ok m n \<Longrightarrow> m i = Some c \<Longrightarrow> parent_comment_id c = Some p \<Longrightarrow>
     p < i \<and> (\<exists>pc. m p = Some pc \<and> i \<in> set (replies pc))"
  unfolding graph_ok_def by blast

lemma graph_ok_reply:
  "graph_ok m n \<Longrightarrow> m i = Some c \<Longrightarrow> r \<in> set (replies c) \<Longrightarrow>
     \<exists>rc. m r = Some rc \<and> parent_comment_id rc = Some i"
  unfolding graph_ok_def by blast

lemma graph_ok_distinct: "graph_ok m n \<Longrightarrow> m i = Some c \<Longrightarrow> distinct (replies c)"
  by (simp add: graph_ok_def)

lemma graph_ok_fresh: "graph_ok m n \<Longrightarrow> m n = None"
  by (metis graph_ok_bounds less_irrefl option.exhaust)

lemma depth_loop_None: "depth_loop m None d = Some d"
  by (subst depth_loop.simps) simp

lemma depth_loop_Some:
  "depth_loop m (Some i) d =
     (case m i of None \<Rightarrow> Some d
      | Some c \<Rightarrow> depth_loop m (parent_comment_id c) (if parent_comment_id c \<noteq> None then d + 1 else d))"
  by (subst depth_loop.simps) simp

lemma hops_functional: "hops m i k \<Longrightarrow> hops m i k' \<Longrightarrow> k = k'"
proof (induction arbitrary: k' rule: hops.induct)
  case (hops_root m i c)
  from hops_root.prems hops_root.hyps show ?case by (auto elim: hops.cases)
next
  case (hops_step m i c p k)
  from hops_step.prems hops_step.hyps(1,2) obtain j where "k' = Suc j" "hops m p j"
    by (auto elim: hops.cases)
  with hops_step.IH show ?case by simp
qed

lemma depth_loop_hops:
  assumes "graph_ok m n" "m i = Some c"
  shows "\<exists>k. hops m i k \<and> (\<forall>d. depth_loop m (Some i) d = Some (d + k))"
  using assms(2)
proof (induction "nat i" arbitrary: i c rule: less_induct)
  case less
  show ?case
  proof (cases "parent_comment_id c")
    case None
    with less.prems have "hops m i 0" by (rule hops_root)
    moreover have "\<forall>d. depth_loop m (Some i) d = Some (d + 0)"
      using less.prems None by (simp add: depth_loop_Some depth_loop_None)
    ultimately show ?thesis by blast
  next
    case (Some p)
    from graph_ok_parent [OF assms(1) less.prems Some]
    obtain pc where p: "p < i" "m p = Some pc" by blast
    from graph_ok_bounds [OF assms(1) p(2)] p(1) have "nat p < nat i" by simp
    from less.hyps [OF this p(2)] obtain k where
      k: "hops m p k" "\<forall>d. depth_loop m (Some p) d = Some (d + k)" by blast
    have "hops m i (Suc k)" using less.prems Some k(1) by (rule hops_step)
    moreover have "\<forall>d. depth_loop m (Some i) d = Some (d + Suc k)"
      using less.prems Some k(2) by (simp add: depth_loop_Some)
    ultimately show ?thesis by blast
  qed
qed

lemma list_all2_exists:
  "(\<And>x. x \<in> set xs \<Longrightarrow> \<exists>y. R x y) \<Longrightarrow> \<exists>ys. list_all2 R xs ys"
proof (induction xs)
  case Nil
  show ?case by simp
next
  case (Cons x xs)
  then obtain y ys where "R x y" "list_all2 R xs ys" by (meson list.set_intros)
  then have "list_all2 R (x # xs) (y # ys)" by simp
  then show ?case ..
qed

lemma tree_of_exists:
  assumes "graph_ok m n" "m a = Some c"
  shows "\<exists>t. tree_of m a t"
  using assms(2)
proof (induction "nat (n - a)" arbitrary: a c rule: less_induct)
  case less
  have "\<exists>t. tree_of m r t" if r: "r \<in> set (replies c)" for r
  proof -
    from graph_ok_reply [OF assms(1) less.prems r]
    obtain rc where rc: "m r = Some rc" "parent_comment_id rc = Some a" by blast
    from graph_ok_parent [OF assms(1) rc] have "a < r" by simp
    moreover from graph_ok_bounds [OF assms(1) rc(1)] have "r < n" by simp
    ultimately have "nat (n - r) < nat (n - a)" by simp
    from less.hyps [OF this rc(1)] show ?thesis .
  qed
  then obtain ts where "list_all2 (tree_of m) (replies c) ts"
    using list_all2_exists [of "replies c" "tree_of m"] by blast
  with less.prems have "tree_of m a (Node a (collapsed c) ts)" by (rule tree_ofI)
  then show ?case ..
qed

lemma list_all2_functional:
  "list_all2 R xs ys \<Longrightarrow> list_all2 R xs ys' \<Longrightarrow>
   (\<And>x y y'. y \<in> set ys \<Longrightarrow> R x y \<Longrightarrow> R x y' \<Longrightarrow> y = y') \<Longrightarrow> ys = ys'"
proof (induction xs arbitrary: ys ys')
  case Nil
  then show ?case by simp
next
  case (Cons x xs)
  from Cons.prems(1) obtain y zs where ys: "ys = y # zs" "R x y" "list_all2 R xs zs"
    by (auto simp: list_all2_Cons1)
  from Cons.prems(2) obtain y' zs' where ys': "ys' = y' # zs'" "R x y'" "list_all2 R xs zs'"
    by (auto simp: list_all2_Cons1)
  have "y = y'" using Cons.prems(3) [of y x y'] ys ys' by simp
  moreover have "zs = zs'"
    using Cons.IH [OF ys(3) ys'(3)] Cons.prems(3) ys(1) by auto
  ultimately show ?case using ys ys' by simp
qed

lemma tree_of_functional: "tree_of m a t \<Longrightarrow> tree_of m a t' \<Longrightarrow> t = t'"
proof (induction t arbitrary: a t')
  case (Node b col ts)
  from Node.prems(1) obtain c where c: "m a = Some c" "b = a" "col = collapsed c"
    "list_all2 (tree_of m) (replies c) ts" by (auto elim: tree_of.cases)
  from Node.prems(2) c(1) obtain ts' where t': "t' = Node a (collapsed c) ts'"
    "list_all2 (tree_of m) (replies c) ts'" by (auto elim: tree_of.cases)
  have "ts = ts'"
    using c(4) t'(2) by (rule list_all2_functional) (rule Node.IH)
  with c t' show ?case by simp
qed

lemma count_loop:
  "list_all2 (\<lambda>r k. f r = Some k) rs ks \<Longrightarrow>
   for_loop (\<lambda>reply count. Option.bind (f reply) (\<lambda>k. Some (count + k))) rs acc
     = Some (acc + sum_list ks)"
  by (induction rs ks arbitrary: acc rule: list_all2_induct) (simp_all add: add.assoc)

lemma list_all2_set_mono:
  "list_all2 R xs ys \<Longrightarrow> (\<And>x y. y \<in> set ys \<Longrightarrow> R x y \<Longrightarrow> Q x y) \<Longrightarrow> list_all2 Q xs ys"
  by (induction xs ys rule: list_all2_induct) simp_all

lemma sum_list_Suc: "sum_list (map (\<lambda>t. Suc (f t)) ts) = length ts + sum_list (map f ts)"
  by (induction ts) simp_all

lemma count_total_replies_unfold:
  "m a = Some c \<Longrightarrow> count_total_replies m a =
     for_loop (\<lambda>reply count. Option.bind (count_total_replies m reply) (\<lambda>k. Some (count + k)))
       (replies c) (length (replies c))"
  by (subst count_total_replies.simps) simp

lemma count_total_replies_tree:
  "tree_of m a t \<Longrightarrow> count_total_replies m a = Some (descendants t)"
proof (induction t arbitrary: a)
  case (Node b col ts)
  from Node.prems obtain c where c: "m a = Some c"
    "list_all2 (tree_of m) (replies c) ts" by (auto elim: tree_of.cases)
  have "list_all2 (\<lambda>r t. count_total_replies m r = Some (descendants t)) (replies c) ts"
    using c(2) by (rule list_all2_set_mono) (rule Node.IH)
  then have "list_all2 (\<lambda>r k. count_total_replies m r = Some k) (replies c) (map descendants ts)"
    by (simp add: list_all2_map2)
  from count_loop [OF this, of "length (replies c)"]
  have "count_total_replies m a = Some (length (replies c) + sum_list (map descendants ts))"
    by (simp only: count_total_replies_unfold [of m a c, OF c(1)])
  moreover have "length (replies c) = length ts" using c(2) by (rule list_all2_lengthD)
  ultimately show ?case by (simp add: sum_list_Suc)
qed

lemma append_loop:
  "list_all2 (\<lambda>a t. \<forall>acc. f a acc = Some (acc @ g t)) cs ts \<Longrightarrow>
   for_loop f cs acc = Some (acc @ concat (map g ts))"
  by (induction cs ts arbitrary: acc rule: list_all2_induct) simp_all

lemma flatten_step_tree:
  "tree_of m a t \<Longrightarrow>
   (case m a of
      None \<Rightarrow> None
    | Some c \<Rightarrow>
        if \<not> collapsed c
        then Option.bind (flatten_comments m (replies c)) (\<lambda>sub. Some (acc @ [a] @ sub))
        else Some (acc @ [a])) = Some (acc @ preorder t)"
proof (induction t arbitrary: a acc)
  case (Node b col ts)
  from Node.prems obtain c where c: "m a = Some c" "b = a" "col = collapsed c"
    "list_all2 (tree_of m) (replies c) ts" by (auto elim: tree_of.cases)
  have "list_all2 (\<lambda>a t. \<forall>acc.
          (case m a of
             None \<Rightarrow> None
           | Some c \<Rightarrow>
               if \<not> collapsed c
               then Option.bind (flatten_comments m (replies c)) (\<lambda>sub. Some (acc @ [a] @ sub))
               else Some (acc @ [a])) = Some (acc @ preorder t)) (replies c) ts"
    using c(4) by (rule list_all2_set_mono) (simp add: Node.IH)
  from append_loop [OF this, of "[]"]
  have "flatten_comments m (replies c) = Some (concat (map preorder ts))"
    by (subst flatten_comments.simps) simp
  with c show ?case by simp
qed

lemma flatten_comments_trees:
  assumes "list_all2 (tree_of m) cs ts"
  shows "flatten_comments m cs = Some (concat (map preorder ts))"
proof -
  have "list_all2 (\<lambda>a t. \<forall>acc.
          (case m a of
             None \<Rightarrow> None
           | Some c \<Rightarrow>
               if \<not> collapsed c
               then Option.bind (flatten_comments m (replies c)) (\<lambda>sub. Some (acc @ [a] @ sub))
               else Some (acc @ [a])) = Some (acc @ preorder t)) cs ts"
    using assms by (rule list_all2_set_mono) (simp add: flatten_step_tree)
  from append_loop [OF this, of "[]"] show ?thesis
    by (subst flatten_comments.simps) simp
qed

section \<open>Preservation of the well-formedness conditions\<close>

lemma graph_okI:
  assumes "0 < n"
    and "\<And>i c. m i = Some c \<Longrightarrow> id_comment c = i \<and> 0 < i \<and> i < n \<and> distinct (replies c)"
    and "\<And>i c p. m i = Some c \<Longrightarrow> parent_comment_id c = Some p \<Longrightarrow>
           p < i \<and> (\<exists>pc. m p = Some pc \<and> i \<in> set (replies pc))"
    and "\<And>i c r. m i = Some c \<Longrightarrow> r \<in> set (replies c) \<Longrightarrow>
           \<exists>rc. m r = Some rc \<and> parent_comment_id rc = Some i"
  shows "graph_ok m n"
  unfolding graph_ok_def using assms by blast

lemma graph_ok_pos: "graph_ok m n \<Longrightarrow> 0 < n"
  by (simp add: graph_ok_def)

lemma graph_ok_update_flags:
  assumes g: "graph_ok m n" and a: "m a = Some c"
    and same: "id_comment c' = id_comment c" "parent_comment_id c' = parent_comment_id c"
      "replies c' = replies c"
  shows "graph_ok (m(a \<mapsto> c')) n"
proof (rule graph_okI)
  show "0 < n" using g by (rule graph_ok_pos)
next
  fix i ci assume "(m(a \<mapsto> c')) i = Some ci"
  then show "id_comment ci = i \<and> 0 < i \<and> i < n \<and> distinct (replies ci)"
    using graph_ok_bounds [OF g] graph_ok_distinct [OF g] a same
    by (auto split: if_splits)
next
  fix i ci p assume i: "(m(a \<mapsto> c')) i = Some ci" "parent_comment_id ci = Some p"
  then obtain ci0 where ci0: "m i = Some ci0" "parent_comment_id ci0 = Some p"
    using a same by (cases "i = a") auto
  from graph_ok_parent [OF g ci0] obtain pc where pc: "p < i" "m p = Some pc" "i \<in> set (replies pc)"
    by blast
  show "p < i \<and> (\<exists>pc. (m(a \<mapsto> c')) p = Some pc \<and> i \<in> set (replies pc))"
    using pc a same by (cases "p = a") auto
next
  fix i ci r assume i: "(m(a \<mapsto> c')) i = Some ci" "r \<in> set (replies ci)"
  then obtain ci0 where ci0: "m i = Some ci0" "r \<in> set (replies ci0)"
    using a same by (cases "i = a") auto
  from graph_ok_reply [OF g ci0] obtain rc where rc: "m r = Some rc" "parent_comment_id rc = Some i"
    by blast
  show "\<exists>rc. (m(a \<mapsto> c')) r = Some rc \<and> parent_comment_id rc = Some i"
    using rc a same by (cases "r = a") auto
qed

lemma graph_ok_add_root:
  assumes g: "graph_ok m n"
  shows "graph_ok (m(n \<mapsto> new_comment n u tx now None)) (n + 1)"
proof (rule graph_okI)
  show "0 < n + 1" using graph_ok_pos [OF g] by simp
next
  fix i ci assume "(m(n \<mapsto> new_comment n u tx now None)) i = Some ci"
  then show "id_comment ci = i \<and> 0 < i \<and> i < n + 1 \<and> distinct (replies ci)"
    using graph_ok_bounds [OF g, of i ci] graph_ok_distinct [OF g, of i ci] graph_ok_pos [OF g]
    by (auto simp: new_comment_def split: if_splits)
next
  fix i ci p assume i: "(m(n \<mapsto> new_comment n u tx now None)) i = Some ci" "parent_comment_id ci = Some p"
  then have ci0: "m i = Some ci" "i \<noteq> n" by (auto simp: new_comment_def split: if_splits)
  from graph_ok_parent [OF g ci0(1) i(2)] obtain pc where pc: "p < i" "m p = Some pc" "i \<in> set (replies pc)"
    by blast
  with graph_ok_fresh [OF g] have "p \<noteq> n" by auto
  with pc show "p < i \<and> (\<exists>pc. (m(n \<mapsto> new_comment n u tx now None)) p = Some pc \<and> i \<in> set (replies pc))"
    by auto
next
  fix i ci r assume i: "(m(n \<mapsto> new_comment n u tx now None)) i = Some ci" "r \<in> set (replies ci)"
  then have ci0: "m i = Some ci" "i \<noteq> n" by (auto simp: new_comment_def split: if_splits)
  from graph_ok_reply [OF g ci0(1) i(2)] obtain rc where rc: "m r = Some rc" "parent_comment_id rc = Some i"
    by blast
  with graph_ok_fresh [OF g] have "r \<noteq> n" by auto
  with rc show "\<exists>rc. (m(n \<mapsto> new_comment n u tx now None)) r = Some rc \<and> parent_comment_id rc = Some i"
    by auto
qed

lemma graph_ok_add_reply:
  assumes g: "graph_ok m n" and p: "m p = Some pc"
  shows "graph_ok (m(n \<mapsto> new_comment n u tx now (Some p),
                     p \<mapsto> pc\<lparr>replies := replies pc @ [n]\<rparr>)) (n + 1)"
    (is "graph_ok ?m' _")
proof (rule graph_okI)
  have pn: "p \<noteq> n" "p < n" using graph_ok_bounds [OF g p] by auto
  have fresh: "m n = None" using g by (rule graph_ok_fresh)
  have n_notin: "n \<notin> set (replies c)" if "m i = Some c" for i c
    using graph_ok_reply [OF g that, of n] fresh by auto
  show "0 < n + 1" using graph_ok_pos [OF g] by simp
  {
    fix i ci assume "?m' i = Some ci"
    then show "id_comment ci = i \<and> 0 < i \<and> i < n + 1 \<and> distinct (replies ci)"
      using graph_ok_bounds [OF g, of i ci] graph_ok_distinct [OF g, of i ci] graph_ok_pos [OF g]
        graph_ok_bounds [OF g p] graph_ok_distinct [OF g p] n_notin [OF p]
      by (auto simp: new_comment_def split: if_splits)
  next
    fix i ci q assume i: "?m' i = Some ci" "parent_comment_id ci = Some q"
    show "q < i \<and> (\<exists>qc. ?m' q = Some qc \<and> i \<in> set (replies qc))"
    proof (cases "i = n")
      case True
      with i pn have "q = p" by (auto simp: new_comment_def)
      with True pn show ?thesis by auto
    next
      case False
      with i p obtain ci0 where ci0: "m i = Some ci0" "parent_comment_id ci0 = Some q"
        by (cases "i = p") auto
      from graph_ok_parent [OF g ci0] obtain qc where qc: "q < i" "m q = Some qc" "i \<in> set (replies qc)"
        by blast
      with fresh have "q \<noteq> n" by auto
      with qc p show ?thesis by (cases "q = p") auto
    qed
  next
    fix i ci r assume i: "?m' i = Some ci" "r \<in> set (replies ci)"
    show "\<exists>rc. ?m' r = Some rc \<and> parent_comment_id rc = Some i"
    proof (cases "r = n")
      case True
      have "i = p"
      proof (rule ccontr)
        assume "i \<noteq> p"
        with i True have "i \<noteq> n \<Longrightarrow> m i = Some ci" by auto
        with i True n_notin [of i ci] \<open>i \<noteq> p\<close> show False
          by (cases "i = n") (auto simp: new_comment_def)
      qed
      with True pn show ?thesis by (auto simp: new_comment_def)
    next
      case False
      with i p obtain ci0 where ci0: "m i = Some ci0" "r \<in> set (replies ci0)"
        by (cases "i = p"; cases "i = n") (auto simp: new_comment_def)
      from graph_ok_reply [OF g ci0] obtain rc where rc: "m r = Some rc" "parent_comment_id rc = Some i"
        by blast
      with False p show ?thesis by (cases "r = p") auto
    qed
  }
qed

lemma graph_ok_childless:
  assumes g: "graph_ok m n" and a: "m a = Some c" "replies c = []"
    and i: "m i = Some ci"
  shows "parent_comment_id ci \<noteq> Some a"
proof
  assume "parent_comment_id ci = Some a"
  from graph_ok_parent [OF g i this] a show False by auto
qed

lemma graph_ok_listed_once:
  assumes g: "graph_ok m n" and a: "m a = Some c" and i: "m i = Some ci" "a \<in> set (replies ci)"
  shows "parent_comment_id c = Some i"
  using graph_ok_reply [OF g i] a by auto

lemma graph_ok_delete_root:
  assumes g: "graph_ok m n" and a: "m a = Some c" "replies c = []" "parent_comment_id c = None"
  shows "graph_ok (m(a := None)) n"
proof (rule graph_okI)
  show "0 < n" using g by (rule graph_ok_pos)
next
  fix i ci assume "(m(a := None)) i = Some ci"
  then show "id_comment ci = i \<and> 0 < i \<and> i < n \<and> distinct (replies ci)"
    using graph_ok_bounds [OF g, of i ci] graph_ok_distinct [OF g, of i ci]
    by (auto split: if_splits)
next
  fix i ci p assume i: "(m(a := None)) i = Some ci" "parent_comment_id ci = Some p"
  then have ci0: "m i = Some ci" "i \<noteq> a" by (auto split: if_splits)
  from graph_ok_parent [OF g ci0(1) i(2)] obtain pc where pc: "p < i" "m p = Some pc" "i \<in> set (replies pc)"
    by blast
  from graph_ok_childless [OF g a(1,2) ci0(1)] i(2) have "p \<noteq> a" by auto
  with pc show "p < i \<and> (\<exists>pc. (m(a := None)) p = Some pc \<and> i \<in> set (replies pc))" by auto
next
  fix i ci r assume i: "(m(a := None)) i = Some ci" "r \<in> set (replies ci)"
  then have ci0: "m i = Some ci" "i \<noteq> a" by (auto split: if_splits)
  from graph_ok_reply [OF g ci0(1) i(2)] obtain rc where rc: "m r = Some rc" "parent_comment_id rc = Some i"
    by blast
  with a have "r \<noteq> a" by auto
  with rc show "\<exists>rc. (m(a := None)) r = Some rc \<and> parent_comment_id rc = Some i" by auto
qed

lemma graph_ok_delete_reply:
  assumes g: "graph_ok m n" and a: "m a = Some c" "replies c = []" "parent_comment_id c = Some p"
    and p: "m p = Some pc"
  shows "graph_ok ((m(p \<mapsto> pc\<lparr>replies := remove1 a (replies pc)\<rparr>))(a := None)) n"
    (is "graph_ok ?m' _")
proof (rule graph_okI)
  have pa: "p \<noteq> a" using graph_ok_parent [OF g a(1,3)] by auto
  show "0 < n" using g by (rule graph_ok_pos)
  {
    fix i ci assume "?m' i = Some ci"
    then show "id_comment ci = i \<and> 0 < i \<and> i < n \<and> distinct (replies ci)"
      using graph_ok_bounds [OF g, of i ci] graph_ok_distinct [OF g, of i ci]
        graph_ok_bounds [OF g p] graph_ok_distinct [OF g p]
      by (auto split: if_splits)
  next
    fix i ci q assume i: "?m' i = Some ci" "parent_comment_id ci = Some q"
    then have ia: "i \<noteq> a" by (auto split: if_splits)
    with i p obtain ci0 where ci0: "m i = Some ci0" "parent_comment_id ci0 = Some q"
      by (cases "i = p") auto
    from graph_ok_parent [OF g ci0] obtain qc where qc: "q < i" "m q = Some qc" "i \<in> set (replies qc)"
      by blast
    from graph_ok_childless [OF g a(1,2) ci0(1)] ci0(2) have "q \<noteq> a" by auto
    with qc p ia show "q < i \<and> (\<exists>qc. ?m' q = Some qc \<and> i \<in> set (replies qc))"
      by (cases "q = p") auto
  next
    fix i ci r assume i: "?m' i = Some ci" "r \<in> set (replies ci)"
    then have ia: "i \<noteq> a" by (auto split: if_splits)
    with i p obtain ci0 where ci0: "m i = Some ci0" "r \<in> set (replies ci0)"
      using set_remove1_subset [of a "replies pc"] by (cases "i = p") auto
    from graph_ok_reply [OF g ci0] obtain rc where rc: "m r = Some rc" "parent_comment_id rc = Some i"
      by blast
    have "r \<noteq> a"
    proof
      assume "r = a"
      with rc a have "i = p" by auto
      with i p ia \<open>r = a\<close> graph_ok_distinct [OF g p] show False by auto
    qed
    with rc p show "\<exists>rc. ?m' r = Some rc \<and> parent_comment_id rc = Some i"
      by (cases "r = p") auto
  }
qed

lemma posts_okI:
  assumes "distinct (map fst ps)"
    and "\<And>k p. map_of ps k = Some p \<Longrightarrow> id_post p = k \<and> k < n \<and> distinct (comments_post p)"
    and "\<And>k p a. map_of ps k = Some p \<Longrightarrow> a \<in> set (comments_post p) \<Longrightarrow>
           \<exists>c. m a = Some c \<and> parent_comment_id c = None"
    and "\<And>k p a k' p'. map_of ps k = Some p \<Longrightarrow> a \<in> set (comments_post p) \<Longrightarrow>
           map_of ps k' = Some p' \<Longrightarrow> a \<in> set (comments_post p') \<Longrightarrow> k' = k"
  shows "posts_ok ps m n"
  unfolding posts_ok_def using assms by blast

lemma posts_ok_distinct: "posts_ok ps m n \<Longrightarrow> distinct (map fst ps)"
  by (simp add: posts_ok_def)

lemma posts_ok_entry:
  "posts_ok ps m n \<Longrightarrow> map_of ps k = Some p \<Longrightarrow> id_post p = k \<and> k < n \<and> distinct (comments_post p)"
  by (simp add: posts_ok_def)

lemma posts_ok_root:
  "posts_ok ps m n \<Longrightarrow> map_of ps k = Some p \<Longrightarrow> a \<in> set (comments_post p) \<Longrightarrow>
     \<exists>c. m a = Some c \<and> parent_comment_id c = None"
  unfolding posts_ok_def by blast

lemma posts_ok_unique:
  "posts_ok ps m n \<Longrightarrow> map_of ps k = Some p \<Longrightarrow> a \<in> set (comments_post p) \<Longrightarrow>
     map_of ps k' = Some p' \<Longrightarrow> a \<in> set (comments_post p') \<Longrightarrow> k' = k"
  unfolding posts_ok_def by blast

lemma posts_ok_comments:
  assumes ok: "posts_ok ps m n"
    and keep: "\<And>k p a c. map_of ps k = Some p \<Longrightarrow> a \<in> set (comments_post p) \<Longrightarrow>
       m a = Some c \<Longrightarrow> parent_comment_id c = None \<Longrightarrow>
       \<exists>c'. m' a = Some c' \<and> parent_comment_id c' = None"
  shows "posts_ok ps m' n"
proof (rule posts_okI)
  show "distinct (map fst ps)" using ok by (rule posts_ok_distinct)
next
  fix k p assume "map_of ps k = Some p"
  then show "id_post p = k \<and> k < n \<and> distinct (comments_post p)" by (rule posts_ok_entry [OF ok])
next
  fix k p a assume kp: "map_of ps k = Some p" "a \<in> set (comments_post p)"
  from posts_ok_root [OF ok kp] obtain c where "m a = Some c" "parent_comment_id c = None" by blast
  with keep [OF kp] show "\<exists>c. m' a = Some c \<and> parent_comment_id c = None" by blast
next
  fix k p a k' p'
  assume "map_of ps k = Some p" "a \<in> set (comments_post p)"
    "map_of ps k' = Some p'" "a \<in> set (comments_post p')"
  then show "k' = k" by (rule posts_ok_unique [OF ok])
qed

lemma posts_ok_create:
  assumes ok: "posts_ok ps m n"
  shows "posts_ok (AList.update n \<lparr>id_post = n, title = t, comments_post = []\<rparr> ps) m (n + 1)"
    (is "posts_ok ?ps' _ _")
proof (rule posts_okI)
  have fresh: "map_of ps n = None"
    using posts_ok_entry [OF ok, of n] by (cases "map_of ps n") auto
  have look: "map_of ?ps' k = (if k = n then Some \<lparr>id_post = n, title = t, comments_post = []\<rparr> else map_of ps k)" for k
    by (simp add: update_conv')
  show "distinct (map fst ?ps')" using posts_ok_distinct [OF ok] by (rule distinct_update)
  {
    fix k p assume "map_of ?ps' k = Some p"
    then show "id_post p = k \<and> k < n + 1 \<and> distinct (comments_post p)"
      using posts_ok_entry [OF ok, of k p] by (auto simp: look split: if_splits)
  next
    fix k p a assume "map_of ?ps' k = Some p" "a \<in> set (comments_post p)"
    then show "\<exists>c. m a = Some c \<and> parent_comment_id c = None"
      using posts_ok_root [OF ok, of k p a] by (auto simp: look split: if_splits)
  next
    fix k p a k' p'
    assume "map_of ?ps' k = Some p" "a \<in> set (comments_post p)"
      "map_of ?ps' k' = Some p'" "a \<in> set (comments_post p')"
    then show "k' = k"
      using posts_ok_unique [OF ok, of k p a k' p'] by (auto simp: look split: if_splits)
  }
qed

lemma posts_ok_append:
  assumes ok: "posts_ok ps m n" and kp: "map_of ps k = Some p"
    and fresh: "m a = None" and root: "m' a = Some c" "parent_comment_id c = None"
    and keep: "\<And>b. b \<noteq> a \<Longrightarrow> m' b = m b"
  shows "posts_ok (AList.update k (p\<lparr>comments_post := comments_post p @ [a]\<rparr>) ps) m' n"
    (is "posts_ok ?ps' _ _")
proof (rule posts_okI)
  have look: "map_of ?ps' j = (if j = k then Some (p\<lparr>comments_post := comments_post p @ [a]\<rparr>) else map_of ps j)" for j
    by (simp add: update_conv')
  have unlisted: "a \<notin> set (comments_post q)" if "map_of ps j = Some q" for j q
    using posts_ok_root [OF ok that, of a] fresh by auto
  show "distinct (map fst ?ps')" using posts_ok_distinct [OF ok] by (rule distinct_update)
  {
    fix j q assume "map_of ?ps' j = Some q"
    then show "id_post q = j \<and> j < n \<and> distinct (comments_post q)"
      using posts_ok_entry [OF ok, of j q] posts_ok_entry [OF ok kp] unlisted [OF kp]
      by (auto simp: look split: if_splits)
  next
    fix j q b assume jq: "map_of ?ps' j = Some q" "b \<in> set (comments_post q)"
    show "\<exists>c. m' b = Some c \<and> parent_comment_id c = None"
    proof (cases "b = a")
      case True
      with root show ?thesis by simp
    next
      case False
      with jq kp obtain q0 where "map_of ps j = Some q0" "b \<in> set (comments_post q0)"
        by (auto simp: look split: if_splits)
      from posts_ok_root [OF ok this] keep [OF False] show ?thesis by simp
    qed
  next
    fix j q b j' q'
    assume jq: "map_of ?ps' j = Some q" "b \<in> set (comments_post q)"
      and jq': "map_of ?ps' j' = Some q'" "b \<in> set (comments_post q')"
    show "j' = j"
    proof (cases "b = a")
      case True
      with jq unlisted [of j q] have "j = k" by (auto simp: look split: if_splits)
      moreover from True jq' unlisted [of j' q'] have "j' = k" by (auto simp: look split: if_splits)
      ultimately show ?thesis by simp
    next
      case False
      with jq kp obtain q0 where q0: "map_of ps j = Some q0" "b \<in> set (comments_post q0)"
        by (auto simp: look split: if_splits)
      from False jq' kp obtain q0' where q0': "map_of ps j' = Some q0'" "b \<in> set (comments_post q0')"
        by (auto simp: look split: if_splits)
      from posts_ok_unique [OF ok q0 q0'] show ?thesis .
    qed
  }
qed

lemma remove_from_posts_map:
  assumes "distinct (map fst ps)"
    and "\<And>k p k' p'. (k, p) \<in> set ps \<Longrightarrow> (k', p') \<in> set ps \<Longrightarrow>
           a \<in> set (comments_post p) \<Longrightarrow> a \<in> set (comments_post p') \<Longrightarrow> k' = k"
  shows "remove_from_posts a ps =
           map (\<lambda>(k, p). (k, p\<lparr>comments_post := remove1 a (comments_post p)\<rparr>)) ps"
  using assms
proof (induction ps)
  case Nil
  show ?case by simp
next
  case (Cons kp ps)
  obtain k p where kp: "kp = (k, p)" by (cases kp)
  show ?case
  proof (cases "a \<in> set (comments_post p)")
    case True
    have "(\<lambda>(k, p). (k, p\<lparr>comments_post := remove1 a (comments_post p)\<rparr>)) x = x"
      if x: "x \<in> set ps" for x
    proof -
      obtain k' p' where x': "x = (k', p')" by (cases x)
      have "k' \<noteq> k" using Cons.prems(1) x kp x' by force
      with Cons.prems(2) [of k p k' p'] True x kp x' have "a \<notin> set (comments_post p')" by auto
      then show ?thesis by (simp add: x' remove1_idem)
    qed
    then have "map (\<lambda>(k, p). (k, p\<lparr>comments_post := remove1 a (comments_post p)\<rparr>)) ps = ps"
      by (rule map_idI)
    with True kp show ?thesis by simp
  next
    case False
    have "remove_from_posts a ps =
            map (\<lambda>(k, p). (k, p\<lparr>comments_post := remove1 a (comments_post p)\<rparr>)) ps"
      using Cons.prems by (intro Cons.IH) auto
    with False kp show ?thesis by (simp add: remove1_idem)
  qed
qed

lemma map_of_map_snd:
  "map_of (map (\<lambda>(k, p). (k, f p)) ps) k = map_option f (map_of ps k)"
  by (induction ps) auto

lemma posts_ok_remove_map:
  assumes ok: "posts_ok ps m n"
  shows "map_of (remove_from_posts a ps) k =
           map_option (\<lambda>p. p\<lparr>comments_post := remove1 a (comments_post p)\<rparr>) (map_of ps k)"
    and "map fst (remove_from_posts a ps) = map fst ps"
proof -
  have d: "distinct (map fst ps)" using ok by (rule posts_ok_distinct)
  have eq: "remove_from_posts a ps =
           map (\<lambda>(k, p). (k, p\<lparr>comments_post := remove1 a (comments_post p)\<rparr>)) ps"
  proof (rule remove_from_posts_map [OF d])
    fix k p k' p'
    assume "(k, p) \<in> set ps" "(k', p') \<in> set ps"
      and in_p: "a \<in> set (comments_post p)" "a \<in> set (comments_post p')"
    with d have "map_of ps k = Some p" "map_of ps k' = Some p'" by simp_all
    from posts_ok_unique [OF ok this(1) in_p(1) this(2) in_p(2)] show "k' = k" .
  qed
  show "map_of (remove_from_posts a ps) k =
           map_option (\<lambda>p. p\<lparr>comments_post := remove1 a (comments_post p)\<rparr>) (map_of ps k)"
    unfolding eq by (rule map_of_map_snd)
  show "map fst (remove_from_posts a ps) = map fst ps"
    unfolding eq by (induction ps) auto
qed

lemma posts_ok_delete_root:
  assumes ok: "posts_ok ps m n"
  shows "posts_ok (remove_from_posts a ps) (m(a := None)) n" (is "posts_ok ?ps' ?m' _")
proof (rule posts_okI)
  note look = posts_ok_remove_map [OF ok, of a]
  show "distinct (map fst ?ps')" using posts_ok_distinct [OF ok] by (simp add: look(2))
  {
    fix k p assume "map_of ?ps' k = Some p"
    then show "id_post p = k \<and> k < n \<and> distinct (comments_post p)"
      using posts_ok_entry [OF ok, of k] by (auto simp: look(1))
  next
    fix k p b assume kp: "map_of ?ps' k = Some p" "b \<in> set (comments_post p)"
    then obtain p0 where p0: "map_of ps k = Some p0" "b \<in> set (remove1 a (comments_post p0))"
      by (auto simp: look(1))
    from posts_ok_entry [OF ok p0(1)] p0(2) have "b \<noteq> a" "b \<in> set (comments_post p0)" by auto
    with posts_ok_root [OF ok p0(1), of b] show "\<exists>c. ?m' b = Some c \<and> parent_comment_id c = None"
      by simp
  next
    fix k p b k' p'
    assume "map_of ?ps' k = Some p" "b \<in> set (comments_post p)"
      "map_of ?ps' k' = Some p'" "b \<in> set (comments_post p')"
    then obtain p0 p0' where "map_of ps k = Some p0" "b \<in> set (comments_post p0)"
      "map_of ps k' = Some p0'" "b \<in> set (comments_post p0')"
      using set_remove1_subset [of a] by (fastforce simp: look(1))
    then show "k' = k" by (rule posts_ok_unique [OF ok])
  }
qed

lemma posts_ok_delete_reply:
  assumes ok: "posts_ok ps m n" and a: "m a = Some c" "parent_comment_id c = Some p"
    and keep: "\<And>b cb. b \<noteq> a \<Longrightarrow> m b = Some cb \<Longrightarrow>
                 \<exists>cb'. m' b = Some cb' \<and> parent_comment_id cb' = parent_comment_id cb"
  shows "posts_ok ps m' n"
proof (rule posts_ok_comments [OF ok])
  fix k q b cb
  assume kq: "map_of ps k = Some q" "b \<in> set (comments_post q)"
    and b: "m b = Some cb" "parent_comment_id cb = None"
  with a have "b \<noteq> a" by auto
  from keep [OF this b(1)] b(2) show "\<exists>c'. m' b = Some c' \<and> parent_comment_id c' = None" by simp
qed

lemma users_okI:
  assumes "\<And>u l. uc u = Some l \<Longrightarrow> sorted l \<and> distinct l"
    and "\<And>u l i. uc u = Some l \<Longrightarrow> i \<in> set l \<Longrightarrow> \<exists>c. m i = Some c \<and> user c = u"
    and "\<And>i c. m i = Some c \<Longrightarrow> \<exists>l. uc (user c) = Some l \<and> i \<in> set l"
  shows "users_ok uc m"
  unfolding users_ok_def using assms by blast

lemma users_ok_sorted: "users_ok uc m \<Longrightarrow> uc u = Some l \<Longrightarrow> sorted l \<and> distinct l"
  by (simp add: users_ok_def)

lemma users_ok_member:
  "users_ok uc m \<Longrightarrow> uc u = Some l \<Longrightarrow> i \<in> set l \<Longrightarrow> \<exists>c. m i = Some c \<and> user c = u"
  unfolding users_ok_def by blast

lemma users_ok_listed:
  "users_ok uc m \<Longrightarrow> m i = Some c \<Longrightarrow> \<exists>l. uc (user c) = Some l \<and> i \<in> set l"
  unfolding users_ok_def by blast

lemma users_ok_update:
  assumes ok: "users_ok uc m" and a: "m a = Some c" and same: "user c' = user c"
  shows "users_ok uc (m(a \<mapsto> c'))"
proof (rule users_okI)
  fix u l assume "uc u = Some l"
  then show "sorted l \<and> distinct l" by (rule users_ok_sorted [OF ok])
next
  fix u l i assume ul: "uc u = Some l" "i \<in> set l"
  from users_ok_member [OF ok ul] a same
  show "\<exists>c. (m(a \<mapsto> c')) i = Some c \<and> user c = u" by (cases "i = a") auto
next
  fix i ci assume "(m(a \<mapsto> c')) i = Some ci"
  then show "\<exists>l. uc (user ci) = Some l \<and> i \<in> set l"
    using users_ok_listed [OF ok, of i ci] users_ok_listed [OF ok a] same
    by (cases "i = a") auto
qed

lemma users_ok_add:
  assumes ok: "users_ok uc m" and fresh: "m n = None"
    and below: "\<And>i c. m i = Some c \<Longrightarrow> i < n" and u: "user c = u"
  shows "users_ok (uc(u \<mapsto> (case uc u of None \<Rightarrow> [] | Some l \<Rightarrow> l) @ [n])) (m(n \<mapsto> c))"
    (is "users_ok ?uc' ?m'")
proof (rule users_okI)
  define old where "old = (case uc u of None \<Rightarrow> [] | Some l \<Rightarrow> l)"
  have old_sorted: "sorted old \<and> distinct old"
    using users_ok_sorted [OF ok, of u] by (auto simp: old_def split: option.splits)
  have old_member: "\<exists>ci. m i = Some ci \<and> user ci = u" if "i \<in> set old" for i
  proof (cases "uc u")
    case None
    with that show ?thesis by (simp add: old_def)
  next
    case (Some l)
    with that have "i \<in> set l" by (simp add: old_def)
    with Some show ?thesis by (rule users_ok_member [OF ok])
  qed
  have old_below: "i < n" if "i \<in> set old" for i
    using old_member [OF that] below by blast
  have old_notin: "n \<notin> set old" using old_below [of n] by auto
  have old_le: "\<forall>x \<in> set old. x \<le> n" using old_below by (auto intro: less_imp_le)
  {
    fix v l assume "?uc' v = Some l"
    then show "sorted l \<and> distinct l"
      using old_sorted old_notin old_le users_ok_sorted [OF ok, of v l]
      by (auto simp: old_def [symmetric] sorted_append split: if_splits)
  next
    fix v l i assume vl: "?uc' v = Some l" "i \<in> set l"
    show "\<exists>c. ?m' i = Some c \<and> user c = v"
    proof (cases "i = n")
      case True
      have "v = u"
      proof (rule ccontr)
        assume "v \<noteq> u"
        with vl have "uc v = Some l" by (simp add: old_def [symmetric])
        from users_ok_member [OF ok this vl(2)] True fresh show False by simp
      qed
      with True u show ?thesis by simp
    next
      case False
      with vl have "\<exists>ci. m i = Some ci \<and> user ci = v"
        using old_member [of i] users_ok_member [OF ok, of v l i]
        by (auto simp: old_def [symmetric] split: if_splits)
      with False show ?thesis by simp
    qed
  next
    fix i ci assume i: "?m' i = Some ci"
    show "\<exists>l. ?uc' (user ci) = Some l \<and> i \<in> set l"
    proof (cases "i = n")
      case True
      with i u show ?thesis by (simp add: old_def [symmetric])
    next
      case False
      with i have mi: "m i = Some ci" by simp
      from users_ok_listed [OF ok mi] obtain l where l: "uc (user ci) = Some l" "i \<in> set l" by blast
      then show ?thesis by (cases "user ci = u") (auto simp: old_def)
    qed
  }
qed

lemma users_ok_delete:
  assumes ok: "users_ok uc m" and a: "m a = Some c" and l: "uc (user c) = Some l"
  shows "users_ok (uc(user c \<mapsto> remove1 a l)) (m(a := None))"
    (is "users_ok ?uc' ?m'")
proof (rule users_okI)
  have uc': "?uc' v = (if v = user c then Some (remove1 a l) else uc v)" for v
    by simp
  note sd = users_ok_sorted [OF ok l]
  {
    fix v k assume "?uc' v = Some k"
    then show "sorted k \<and> distinct k"
      using sd users_ok_sorted [OF ok, of v k]
      by (auto simp: uc' sorted_remove1 split: if_splits)
  next
    fix v k i assume vk: "?uc' v = Some k" "i \<in> set k"
    show "\<exists>ci. ?m' i = Some ci \<and> user ci = v"
    proof (cases "v = user c")
      case True
      with vk sd have "i \<noteq> a" "i \<in> set l" by (auto simp: uc')
      with users_ok_member [OF ok l, of i] True show ?thesis by simp
    next
      case False
      with vk have "uc v = Some k" by (simp add: uc')
      from users_ok_member [OF ok this vk(2)] obtain ci where ci: "m i = Some ci" "user ci = v" by blast
      with False a have "i \<noteq> a" by auto
      with ci show ?thesis by simp
    qed
  next
    fix i ci assume "?m' i = Some ci"
    then have i: "i \<noteq> a" "m i = Some ci" by (auto split: if_splits)
    from users_ok_listed [OF ok i(2)] obtain k where k: "uc (user ci) = Some k" "i \<in> set k" by blast
    with i(1) l show "\<exists>l. ?uc' (user ci) = Some l \<and> i \<in> set l"
      by (cases "user ci = user c") (auto simp: uc')
  }
qed

lemma users_ok_delete_then_update:
  assumes ok: "users_ok uc (m(a := None))" and p: "m p = Some pc" "p \<noteq> a" and same: "user pc' = user pc"
  shows "users_ok uc ((m(p \<mapsto> pc'))(a := None))"
proof -
  have "(m(p \<mapsto> pc'))(a := None) = (m(a := None))(p \<mapsto> pc')" using p(2) by auto
  moreover have "users_ok uc ((m(a := None))(p \<mapsto> pc'))"
    using ok _ same by (rule users_ok_update) (simp add: p)
  ultimately show ?thesis by simp
qed

section \<open>Results of the operations\<close>

lemma create_post_eq:
  "\<not> lock s \<Longrightarrow> create_post s t =
     Some (\<lparr>id_post = next_post_id s, title = t, comments_post = []\<rparr>,
       s\<lparr>next_post_id := next_post_id s + 1,
         posts := AList.update (next_post_id s)
           \<lparr>id_post = next_post_id s, title = t, comments_post = []\<rparr> (posts s)\<rparr>)"
  by (simp add: create_post_def with_lock_def Let_def)

lemma wf_create_post:
  assumes "wf_store s" "create_post s t = Some (p, s')"
  shows "wf_store s'"
proof -
  from assms(1) have l: "\<not> lock s" by (simp add: wf_store_def)
  from assms(2) have s': "s' = s\<lparr>next_post_id := next_post_id s + 1,
         posts := AList.update (next_post_id s)
           \<lparr>id_post = next_post_id s, title = t, comments_post = []\<rparr> (posts s)\<rparr>"
    by (auto simp: create_post_eq [OF l])
  show ?thesis using assms(1) unfolding s' wf_store_def by (simp add: posts_ok_create)
qed

lemma insert_comment_root:
  "map_of (posts s) k = Some p \<Longrightarrow>
   insert_comment s k u tx None now =
     Some (Inr (Some (next_comment_id s)),
       s\<lparr>next_comment_id := next_comment_id s + 1,
         comments := (comments s)(next_comment_id s \<mapsto> new_comment (next_comment_id s) u tx now None),
         user_comments := (user_comments s)(u \<mapsto>
            (case user_comments s u of None \<Rightarrow> [] | Some l \<Rightarrow> l) @ [next_comment_id s]),
         posts := AList.update k (p\<lparr>comments_post := comments_post p @ [next_comment_id s]\<rparr>) (posts s)\<rparr>)"
  by (simp add: insert_comment_def Let_def)

lemma count_total_replies_total:
  assumes "graph_ok m n" "m a = Some c"
  shows "\<exists>t. tree_of m a t \<and> count_total_replies m a = Some (descendants t)"
  using tree_of_exists [OF assms] count_total_replies_tree by blast

lemma insert_comment_reply:
  assumes g: "graph_ok (comments s) (next_comment_id s)" and p: "comments s p = Some pc"
  shows "\<exists>t. tree_of ((comments s)(next_comment_id s \<mapsto> new_comment (next_comment_id s) u tx now (Some p),
                        p \<mapsto> pc\<lparr>replies := replies pc @ [next_comment_id s]\<rparr>)) p t
     \<and> insert_comment s k u tx (Some p) now =
     Some (Inr (Some (next_comment_id s)),
       s\<lparr>next_comment_id := next_comment_id s + 1,
         comments := (comments s)(next_comment_id s \<mapsto> new_comment (next_comment_id s) u tx now (Some p),
            p \<mapsto> pc\<lparr>replies := replies pc @ [next_comment_id s],
                     collapsed := collapsed pc \<or> 10 < descendants t\<rparr>),
         user_comments := (user_comments s)(u \<mapsto>
            (case user_comments s u of None \<Rightarrow> [] | Some l \<Rightarrow> l) @ [next_comment_id s])\<rparr>)"
proof -
  let ?n = "next_comment_id s"
  let ?m2 = "(comments s)(?n \<mapsto> new_comment ?n u tx now (Some p),
                        p \<mapsto> pc\<lparr>replies := replies pc @ [?n]\<rparr>)"
  have pn: "p \<noteq> ?n" using graph_ok_bounds [OF g p] by auto
  have g2: "graph_ok ?m2 (?n + 1)" using g p by (rule graph_ok_add_reply)
  have "?m2 p = Some (pc\<lparr>replies := replies pc @ [?n]\<rparr>)" by simp
  from count_total_replies_total [OF g2 this]
  obtain t where t: "tree_of ?m2 p t" "count_total_replies ?m2 p = Some (descendants t)" by blast
  have "insert_comment s k u tx (Some p) now =
     Some (Inr (Some ?n),
       s\<lparr>next_comment_id := ?n + 1,
         comments := (comments s)(?n \<mapsto> new_comment ?n u tx now (Some p),
            p \<mapsto> pc\<lparr>replies := replies pc @ [?n],
                     collapsed := collapsed pc \<or> 10 < descendants t\<rparr>),
         user_comments := (user_comments s)(u \<mapsto>
            (case user_comments s u of None \<Rightarrow> [] | Some l \<Rightarrow> l) @ [?n])\<rparr>)"
    using p pn t(2) by (simp add: insert_comment_def Let_def should_collapse_thread_def)
  with t(1) show ?thesis by blast
qed

lemma with_lock_eq:
  assumes "\<not> lock s" "body (s\<lparr>lock := True\<rparr>) = Some (r, s'\<lparr>lock := True\<rparr>)" "\<not> lock s'"
  shows "with_lock body s = Some (r, s')"
  using assms by (simp add: with_lock_def)

lemma add_comment_root_eq:
  assumes "\<not> lock s" "u \<noteq> []" "strip tx \<noteq> []" "map_of (posts s) k = Some p"
  shows "add_comment s k u tx None now =
     Some (Inr (Some (next_comment_id s)),
       s\<lparr>next_comment_id := next_comment_id s + 1,
         comments := (comments s)(next_comment_id s \<mapsto> new_comment (next_comment_id s) u tx now None),
         user_comments := (user_comments s)(u \<mapsto>
            (case user_comments s u of None \<Rightarrow> [] | Some l \<Rightarrow> l) @ [next_comment_id s]),
         posts := AList.update k (p\<lparr>comments_post := comments_post p @ [next_comment_id s]\<rparr>) (posts s)\<rparr>)"
proof -
  have "add_comment s k u tx None now =
          with_lock (\<lambda>s. insert_comment s k u tx None now) s"
    using assms by (simp add: add_comment_def with_lock_def)
  also have "\<dots> = Some (Inr (Some (next_comment_id s)),
       s\<lparr>next_comment_id := next_comment_id s + 1,
         comments := (comments s)(next_comment_id s \<mapsto> new_comment (next_comment_id s) u tx now None),
         user_comments := (user_comments s)(u \<mapsto>
            (case user_comments s u of None \<Rightarrow> [] | Some l \<Rightarrow> l) @ [next_comment_id s]),
         posts := AList.update k (p\<lparr>comments_post := comments_post p @ [next_comment_id s]\<rparr>) (posts s)\<rparr>)"
    using assms(1,4) by (intro with_lock_eq) (simp_all add: insert_comment_root)
  finally show ?thesis .
qed

lemma depth_of_hops:
  assumes "graph_ok m n" "hops m i d"
  shows "get_comment_depth m i = Some d"
proof -
  from assms(2) obtain c where "m i = Some c" by (auto elim: hops.cases)
  from depth_loop_hops [OF assms(1) this] obtain k where
    k: "hops m i k" "\<forall>d. depth_loop m (Some i) d = Some (d + k)" by blast
  from hops_functional [OF assms(2) k(1)] k(2) show ?thesis
    by (simp add: get_comment_depth_def)
qed

lemma hops_total: "graph_ok m n \<Longrightarrow> m i = Some c \<Longrightarrow> \<exists>d. hops m i d"
  using depth_loop_hops by blast

lemma add_comment_deep_eq:
  assumes "wf_store s" "map_of (posts s) k \<noteq> None" "hops (comments s) p d" "4 \<le> d" 
  shows "add_comment s k u tx (Some p) now = Some (Inr None, s)"
proof -
  from assms(1) have l: "\<not> lock s" and g: "graph_ok (comments s) (next_comment_id s)"
    by (simp_all add: wf_store_def)
  from assms(3) obtain pc where "comments s p = Some pc" by (auto elim: hops.cases)
  with depth_of_hops [OF g assms(3)] assms(2,4) l show ?thesis
    by (auto simp: add_comment_def with_lock_def)
qed

lemma add_comment_reply_eq:
  assumes wf: "wf_store s" and valid: "u \<noteq> []" "strip tx \<noteq> []" "map_of (posts s) k \<noteq> None"
    and p: "comments s p = Some pc" and d: "hops (comments s) p d" "d \<le> 3"
  shows "\<exists>t. tree_of ((comments s)(next_comment_id s \<mapsto> new_comment (next_comment_id s) u tx now (Some p),
                        p \<mapsto> pc\<lparr>replies := replies pc @ [next_comment_id s]\<rparr>)) p t
     \<and> add_comment s k u tx (Some p) now =
     Some (Inr (Some (next_comment_id s)),
       s\<lparr>next_comment_id := next_comment_id s + 1,
         comments := (comments s)(next_comment_id s \<mapsto> new_comment (next_comment_id s) u tx now (Some p),
            p \<mapsto> pc\<lparr>replies := replies pc @ [next_comment_id s],
                     collapsed := collapsed pc \<or> 10 < descendants t\<rparr>),
         user_comments := (user_comments s)(u \<mapsto>
            (case user_comments s u of None \<Rightarrow> [] | Some l \<Rightarrow> l) @ [next_comment_id s])\<rparr>)"
proof -
  from wf have l: "\<not> lock s" and g: "graph_ok (comments s) (next_comment_id s)"
    by (simp_all add: wf_store_def)
  have g': "graph_ok (comments (s\<lparr>lock := True\<rparr>)) (next_comment_id (s\<lparr>lock := True\<rparr>))"
    using g by simp
  have p': "comments (s\<lparr>lock := True\<rparr>) p = Some pc" using p by simp
  from insert_comment_reply [OF g' p', of u "tx" now k]
  obtain t where t: "tree_of ((comments s)(next_comment_id s \<mapsto> new_comment (next_comment_id s) u tx now (Some p),
                        p \<mapsto> pc\<lparr>replies := replies pc @ [next_comment_id s]\<rparr>)) p t"
    and ins: "insert_comment (s\<lparr>lock := True\<rparr>) k u tx (Some p) now =
     Some (Inr (Some (next_comment_id s)),
       s\<lparr>lock := True, next_comment_id := next_comment_id s + 1,
         comments := (comments s)(next_comment_id s \<mapsto> new_comment (next_comment_id s) u tx now (Some p),
            p \<mapsto> pc\<lparr>replies := replies pc @ [next_comment_id s],
                     collapsed := collapsed pc \<or> 10 < descendants t\<rparr>),
         user_comments := (user_comments s)(u \<mapsto>
            (case user_comments s u of None \<Rightarrow> [] | Some l \<Rightarrow> l) @ [next_comment_id s])\<rparr>)"
    by auto
  have "add_comment s k u tx (Some p) now =
          with_lock (\<lambda>s. insert_comment s k u tx (Some p) now) s"
    using valid p l d(2) depth_of_hops [OF g d(1)]
    by (auto simp: add_comment_def with_lock_def)
  also have "\<dots> = Some (Inr (Some (next_comment_id s)),
       s\<lparr>next_comment_id := next_comment_id s + 1,
         comments := (comments s)(next_comment_id s \<mapsto> new_comment (next_comment_id s) u tx now (Some p),
            p \<mapsto> pc\<lparr>replies := replies pc @ [next_comment_id s],
                     collapsed := collapsed pc \<or> 10 < descendants t\<rparr>),
         user_comments := (user_comments s)(u \<mapsto>
            (case user_comments s u of None \<Rightarrow> [] | Some l \<Rightarrow> l) @ [next_comment_id s])\<rparr>)"
    using l by (intro with_lock_eq) (simp_all add: ins)
  finally show ?thesis using t by blast
qed

lemma wf_after_root:
  assumes wf: "wf_store s" and kp: "map_of (posts s) k = Some p"
  shows "wf_store (s\<lparr>next_comment_id := next_comment_id s + 1,
         comments := (comments s)(next_comment_id s \<mapsto> new_comment (next_comment_id s) u tx now None),
         user_comments := (user_comments s)(u \<mapsto>
            (case user_comments s u of None \<Rightarrow> [] | Some l \<Rightarrow> l) @ [next_comment_id s]),
         posts := AList.update k (p\<lparr>comments_post := comments_post p @ [next_comment_id s]\<rparr>) (posts s)\<rparr>)"
proof -
  let ?n = "next_comment_id s"
  let ?c = "new_comment ?n u tx now None"
  from wf have l: "\<not> lock s" and g: "graph_ok (comments s) ?n"
    and po: "posts_ok (posts s) (comments s) (next_post_id s)"
    and us: "users_ok (user_comments s) (comments s)"
    by (simp_all add: wf_store_def)
  have fresh: "comments s ?n = None" using g by (rule graph_ok_fresh)
  have "graph_ok ((comments s)(?n \<mapsto> ?c)) (?n + 1)" using g by (rule graph_ok_add_root)
  moreover have "posts_ok (AList.update k (p\<lparr>comments_post := comments_post p @ [?n]\<rparr>) (posts s))
      ((comments s)(?n \<mapsto> ?c)) (next_post_id s)"
    using po kp fresh by (rule posts_ok_append [where c = "?c"]) (simp_all add: new_comment_def)
  moreover have "users_ok ((user_comments s)(u \<mapsto>
            (case user_comments s u of None \<Rightarrow> [] | Some l \<Rightarrow> l) @ [?n])) ((comments s)(?n \<mapsto> ?c))"
    using us fresh
  proof (rule users_ok_add)
    fix i c assume "comments s i = Some c"
    from graph_ok_bounds [OF g this] show "i < ?n" by simp
  qed (simp add: new_comment_def)
  ultimately show ?thesis using l by (simp add: wf_store_def)
qed

lemma wf_after_reply:
  assumes wf: "wf_store s" and p: "comments s p = Some pc"
  shows "wf_store (s\<lparr>next_comment_id := next_comment_id s + 1,
         comments := (comments s)(next_comment_id s \<mapsto> new_comment (next_comment_id s) u tx now (Some p),
            p \<mapsto> pc\<lparr>replies := replies pc @ [next_comment_id s], collapsed := b\<rparr>),
         user_comments := (user_comments s)(u \<mapsto>
            (case user_comments s u of None \<Rightarrow> [] | Some l \<Rightarrow> l) @ [next_comment_id s])\<rparr>)"
proof -
  let ?n = "next_comment_id s"
  let ?c = "new_comment ?n u tx now (Some p)"
  let ?pc' = "pc\<lparr>replies := replies pc @ [?n], collapsed := b\<rparr>"
  let ?m1 = "(comments s)(?n \<mapsto> ?c)"
  let ?m' = "(comments s)(?n \<mapsto> ?c, p \<mapsto> ?pc')"
  from wf have l: "\<not> lock s" and g: "graph_ok (comments s) ?n"
    and po: "posts_ok (posts s) (comments s) (next_post_id s)"
    and us: "users_ok (user_comments s) (comments s)"
    by (simp_all add: wf_store_def)
  have fresh: "comments s ?n = None" using g by (rule graph_ok_fresh)
  have pn: "p \<noteq> ?n" using p fresh by auto
  have "graph_ok ((comments s)(?n \<mapsto> ?c, p \<mapsto> pc\<lparr>replies := replies pc @ [?n]\<rparr>)) (?n + 1)"
    using g p by (rule graph_ok_add_reply)
  then have "graph_ok (((comments s)(?n \<mapsto> ?c, p \<mapsto> pc\<lparr>replies := replies pc @ [?n]\<rparr>))(p \<mapsto> ?pc')) (?n + 1)"
    by (rule graph_ok_update_flags [where c = "pc\<lparr>replies := replies pc @ [?n]\<rparr>"]) simp_all
  then have 1: "graph_ok ?m' (?n + 1)" by simp
  have 2: "posts_ok (posts s) ?m' (next_post_id s)"
    using po
  proof (rule posts_ok_comments)
    fix k q a c assume "comments s a = Some c" "parent_comment_id c = None"
    with p pn fresh show "\<exists>c'. ?m' a = Some c' \<and> parent_comment_id c' = None"
      by (cases "a = p") auto
  qed
  have "users_ok ((user_comments s)(u \<mapsto>
            (case user_comments s u of None \<Rightarrow> [] | Some l \<Rightarrow> l) @ [?n])) ?m1"
    using us fresh
  proof (rule users_ok_add)
    fix i c assume "comments s i = Some c"
    from graph_ok_bounds [OF g this] show "i < ?n" by simp
  qed (simp add: new_comment_def)
  then have 3: "users_ok ((user_comments s)(u \<mapsto>
            (case user_comments s u of None \<Rightarrow> [] | Some l \<Rightarrow> l) @ [?n])) (?m1(p \<mapsto> ?pc'))"
    by (rule users_ok_update [of _ "?m1" p pc "?pc'"]) (simp_all add: p pn)
  show ?thesis using l 1 2 3 by (simp add: wf_store_def)
qed

lemma add_comment_absent:
  assumes "\<not> lock s"
    and "u = [] \<or> strip tx = [] \<or> map_of (posts s) k = None
         \<or> (\<exists>pid. par = Some pid \<and> comments s pid = None)"
  shows "add_comment s k u tx par now = Some (Inr None, s)"
  using assms by (auto simp: add_comment_def with_lock_def)

lemma wf_add_comment:
  assumes wf: "wf_store s" and res: "add_comment s k u tx par now = Some (r, s')"
  shows "wf_store s'"
proof -
  from wf have l: "\<not> lock s" and g: "graph_ok (comments s) (next_comment_id s)"
    by (simp_all add: wf_store_def)
  consider (reject) "u = [] \<or> strip tx = [] \<or> map_of (posts s) k = None
         \<or> (\<exists>pid. par = Some pid \<and> comments s pid = None)"
    | (root) p where "u \<noteq> []" "strip tx \<noteq> []" "map_of (posts s) k = Some p" "par = None"
    | (reply) po p pc where "u \<noteq> []" "strip tx \<noteq> []" "map_of (posts s) k = Some po"
        "par = Some p" "comments s p = Some pc"
    by (cases par; cases "map_of (posts s) k"; cases "comments s (the par)") auto
  then show ?thesis
  proof cases
    case reject
    from add_comment_absent [OF l this] res wf show ?thesis by simp
  next
    case root
    from add_comment_root_eq [OF l root(1,2,3)] res root(4) wf_after_root [OF wf root(3)]
    show ?thesis by auto
  next
    case reply
    from hops_total [OF g reply(5)] obtain d where d: "hops (comments s) p d" by blast
    show ?thesis
    proof (cases "d \<le> 3")
      case True
      from add_comment_reply_eq [OF wf reply(1,2) _ reply(5) d True, of k "now"] reply(3,4) res
        wf_after_reply [OF wf reply(5)]
      show ?thesis by auto
    next
      case False
      then have "4 \<le> d" by simp
      from add_comment_deep_eq [OF wf _ d this, of k u "tx" "now"] reply(3,4) res wf
      show ?thesis by auto
    qed
  qed
qed

section \<open>Deletion\<close>

lemma delete_comment_held: "lock s \<Longrightarrow> delete_comment s a = None"
  by (subst delete_comment.simps) (simp add: with_lock_def Let_def)

lemma detach_lock: "detach s a c = Inr s1 \<Longrightarrow> lock s1 = lock s"
  by (auto simp: detach_def split: option.splits if_splits)

lemma forget_author_lock: "lock (forget_author s a c) = lock s"
  by (simp add: forget_author_def split: option.splits)

lemma delete_loop_held:
  "lock s \<Longrightarrow> rs \<noteq> [] \<Longrightarrow>
   for_loop (\<lambda>reply (r, s).
       case r of
         Inl e \<Rightarrow> Some (Inl e, s)
       | Inr _ \<Rightarrow>
           (case comments s reply of
              None \<Rightarrow> None
            | Some rc \<Rightarrow> delete_comment s (id_comment rc)))
     rs (Inr True, s) = None"
  by (cases rs) (simp_all add: delete_comment_held split: option.splits)

lemma delete_comment_unfold:
  assumes "\<not> lock s"
  shows "delete_comment s a =
    (case comments s a of
       None \<Rightarrow> Some (Inr False, s)
     | Some c \<Rightarrow>
         (case detach (s\<lparr>lock := True\<rparr>) a c of
            Inl e \<Rightarrow> Some (Inl e, s)
          | Inr s1 \<Rightarrow>
              (case comments (forget_author s1 a c) a of
                 None \<Rightarrow> Some (Inl KeyError, (forget_author s1 a c)\<lparr>lock := False\<rparr>)
               | Some c' \<Rightarrow>
                   if replies c' = []
                   then Some (Inr True, (forget_author s1 a c)
                          \<lparr>comments := (comments (forget_author s1 a c))(a := None), lock := False\<rparr>)
                   else None)))"
proof (cases "comments s a")
  case None
  with assms show ?thesis
    by (subst delete_comment.simps) (simp add: with_lock_def Let_def)
next
  case (Some c)
  show ?thesis
  proof (cases "detach (s\<lparr>lock := True\<rparr>) a c")
    case (Inl e)
    with Some assms show ?thesis
      by (subst delete_comment.simps) (simp add: with_lock_def Let_def)
  next
    case (Inr s1)
    let ?s2 = "forget_author s1 a c"
    have held: "lock ?s2" using detach_lock [OF Inr] by (simp add: forget_author_lock)
    show ?thesis
    proof (cases "comments ?s2 a")
      case None
      with Some Inr assms show ?thesis
        by (subst delete_comment.simps) (simp add: with_lock_def Let_def)
    next
      case c': (Some c')
      show ?thesis
      proof (cases "replies c' = []")
        case True
        with c' Some Inr assms show ?thesis
          by (subst delete_comment.simps) (simp add: with_lock_def Let_def)
      next
        case False
        from delete_loop_held [OF held False] c' Some Inr assms False show ?thesis
          by (subst delete_comment.simps) (simp add: with_lock_def Let_def)
      qed
    qed
  qed
qed

lemma delete_root_eq:
  assumes wf: "wf_store s" and a: "comments s a = Some c" "parent_comment_id c = None"
    and l: "user_comments s (user c) = Some l"
  shows "delete_comment s a =
    (if replies c = []
     then Some (Inr True, s\<lparr>posts := remove_from_posts a (posts s),
            user_comments := (user_comments s)(user c \<mapsto> remove1 a l),
            comments := (comments s)(a := None)\<rparr>)
     else None)"
proof -
  from wf have free: "\<not> lock s" and us: "users_ok (user_comments s) (comments s)"
    by (simp_all add: wf_store_def)
  from users_ok_listed [OF us a(1)] l have al: "a \<in> set l" by simp
  have d: "detach (s\<lparr>lock := True\<rparr>) a c = Inr (s\<lparr>lock := True, posts := remove_from_posts a (posts s)\<rparr>)"
    using a(2) by (simp add: detach_def)
  have f: "forget_author (s\<lparr>lock := True, posts := remove_from_posts a (posts s)\<rparr>) a c =
      s\<lparr>lock := True, posts := remove_from_posts a (posts s),
        user_comments := (user_comments s)(user c \<mapsto> remove1 a l)\<rparr>"
    using l al by (simp add: forget_author_def)
  show ?thesis
    using free a(1) by (simp add: delete_comment_unfold [OF free] d f)
qed

lemma delete_reply_eq:
  assumes wf: "wf_store s" and a: "comments s a = Some c" "parent_comment_id c = Some p"
    and p: "comments s p = Some pc" and l: "user_comments s (user c) = Some l"
  shows "delete_comment s a =
    (if replies c = []
     then Some (Inr True, s\<lparr>user_comments := (user_comments s)(user c \<mapsto> remove1 a l),
            comments := (comments s)(p \<mapsto> pc\<lparr>replies := remove1 a (replies pc)\<rparr>, a := None)\<rparr>)
     else None)"
proof -
  from wf have free: "\<not> lock s" and us: "users_ok (user_comments s) (comments s)"
    and g: "graph_ok (comments s) (next_comment_id s)"
    by (simp_all add: wf_store_def)
  from users_ok_listed [OF us a(1)] l have al: "a \<in> set l" by simp
  from graph_ok_parent [OF g a] p have ap: "a \<in> set (replies pc)" "p \<noteq> a" by auto
  have d: "detach (s\<lparr>lock := True\<rparr>) a c =
      Inr (s\<lparr>lock := True, comments := (comments s)(p \<mapsto> pc\<lparr>replies := remove1 a (replies pc)\<rparr>)\<rparr>)"
    using a(2) p ap by (simp add: detach_def)
  have f: "forget_author (s\<lparr>lock := True, comments := (comments s)(p \<mapsto> pc\<lparr>replies := remove1 a (replies pc)\<rparr>)\<rparr>) a c =
      s\<lparr>lock := True, comments := (comments s)(p \<mapsto> pc\<lparr>replies := remove1 a (replies pc)\<rparr>),
        user_comments := (user_comments s)(user c \<mapsto> remove1 a l)\<rparr>"
    using l al by (simp add: forget_author_def)
  show ?thesis
    using free a(1) ap(2) by (simp add: delete_comment_unfold [OF free] d f)
qed

lemma delete_with_replies_blocks:
  assumes wf: "wf_store s" and a: "comments s a = Some c" "replies c \<noteq> []"
  shows "delete_comment s a = None"
proof -
  from wf have us: "users_ok (user_comments s) (comments s)"
    and g: "graph_ok (comments s) (next_comment_id s)"
    by (simp_all add: wf_store_def)
  from users_ok_listed [OF us a(1)] obtain l where l: "user_comments s (user c) = Some l" by blast
  show ?thesis
  proof (cases "parent_comment_id c")
    case None
    from delete_root_eq [OF wf a(1) None l] a(2) show ?thesis by simp
  next
    case (Some p)
    from graph_ok_parent [OF g a(1) Some] obtain pc where "comments s p = Some pc" by blast
    from delete_reply_eq [OF wf a(1) Some this l] a(2) show ?thesis by simp
  qed
qed

lemma wf_delete:
  assumes wf: "wf_store s" and res: "delete_comment s a = Some (r, s')"
  shows "wf_store s'"
proof (cases "comments s a")
  case None
  from wf have free: "\<not> lock s" by (simp add: wf_store_def)
  from res None wf show ?thesis by (simp add: delete_comment_unfold [OF free])
next
  case (Some c)
  from wf have free: "\<not> lock s" and us: "users_ok (user_comments s) (comments s)"
    and g: "graph_ok (comments s) (next_comment_id s)"
    and po: "posts_ok (posts s) (comments s) (next_post_id s)"
    by (simp_all add: wf_store_def)
  from users_ok_listed [OF us Some] obtain l where l: "user_comments s (user c) = Some l" by blast
  have leaf: "replies c = []"
    using delete_with_replies_blocks [OF wf Some] res by auto
  have us': "users_ok ((user_comments s)(user c \<mapsto> remove1 a l)) ((comments s)(a := None))"
    using us Some l by (rule users_ok_delete)
  show ?thesis
  proof (cases "parent_comment_id c")
    case None
    from delete_root_eq [OF wf Some None l] leaf res
    have s': "s' = s\<lparr>posts := remove_from_posts a (posts s),
            user_comments := (user_comments s)(user c \<mapsto> remove1 a l),
            comments := (comments s)(a := None)\<rparr>" by simp
    show ?thesis
      unfolding s' wf_store_def
      using free graph_ok_delete_root [OF g Some leaf None] posts_ok_delete_root [OF po, of a] us'
      by simp
  next
    case (Some p)
    note par = this
    from graph_ok_parent [OF g \<open>comments s a = Some c\<close> par]
    obtain pc where pc: "comments s p = Some pc" "p \<noteq> a" by auto
    let ?m' = "(comments s)(p \<mapsto> pc\<lparr>replies := remove1 a (replies pc)\<rparr>, a := None)"
    from delete_reply_eq [OF wf \<open>comments s a = Some c\<close> par pc(1) l] leaf res
    have s': "s' = s\<lparr>user_comments := (user_comments s)(user c \<mapsto> remove1 a l),
            comments := ?m'\<rparr>" by simp
    have 1: "graph_ok ?m' (next_comment_id s)"
      using g \<open>comments s a = Some c\<close> leaf par pc(1) by (rule graph_ok_delete_reply)
    have 2: "posts_ok (posts s) ?m' (next_post_id s)"
      using po \<open>comments s a = Some c\<close> par
    proof (rule posts_ok_delete_reply)
      fix b cb assume "b \<noteq> a" "comments s b = Some cb"
      with pc show "\<exists>cb'. ?m' b = Some cb' \<and> parent_comment_id cb' = parent_comment_id cb"
        by (cases "b = p") auto
    qed
    have 3: "users_ok ((user_comments s)(user c \<mapsto> remove1 a l)) ?m'"
      using us' pc by (rule users_ok_delete_then_update) simp
    show ?thesis unfolding s' wf_store_def using free 1 2 3 by simp
  qed
qed

section \<open>Every reachable store is well formed\<close>

lemma wf_update_flags:
  assumes wf: "wf_store s" and a: "comments s a = Some c"
    and same: "id_comment c' = id_comment c" "parent_comment_id c' = parent_comment_id c"
      "replies c' = replies c" "user c' = user c"
  shows "wf_store (s\<lparr>comments := (comments s)(a \<mapsto> c')\<rparr>)"
proof -
  from wf have free: "\<not> lock s" and us: "users_ok (user_comments s) (comments s)"
    and g: "graph_ok (comments s) (next_comment_id s)"
    and po: "posts_ok (posts s) (comments s) (next_post_id s)"
    by (simp_all add: wf_store_def)
  have 1: "graph_ok ((comments s)(a \<mapsto> c')) (next_comment_id s)"
    using g a same(1,2,3) by (rule graph_ok_update_flags)
  have 2: "posts_ok (posts s) ((comments s)(a \<mapsto> c')) (next_post_id s)"
    using po
  proof (rule posts_ok_comments)
    fix k q b cb assume "comments s b = Some cb" "parent_comment_id cb = None"
    with a same(2) show "\<exists>c''. ((comments s)(a \<mapsto> c')) b = Some c'' \<and> parent_comment_id c'' = None"
      by (cases "b = a") auto
  qed
  have 3: "users_ok (user_comments s) ((comments s)(a \<mapsto> c'))"
    using us a same(4) by (rule users_ok_update)
  show ?thesis using free 1 2 3 by (simp add: wf_store_def)
qed

lemma upvote_eq:
  "\<not> lock s \<Longrightarrow> upvote_comment s a =
     (case comments s a of
        Some c \<Rightarrow> Some (True, s\<lparr>comments := (comments s)(a \<mapsto> c\<lparr>vote_count := vote_count c + 1\<rparr>)\<rparr>)
      | None \<Rightarrow> Some (False, s))"
  by (simp add: upvote_comment_def with_lock_def split: option.splits)

lemma downvote_eq:
  "\<not> lock s \<Longrightarrow> downvote_comment s a =
     (case comments s a of
        Some c \<Rightarrow> Some (True, s\<lparr>comments := (comments s)(a \<mapsto> c\<lparr>vote_count := vote_count c - 1\<rparr>)\<rparr>)
      | None \<Rightarrow> Some (False, s))"
  by (simp add: downvote_comment_def with_lock_def split: option.splits)

lemma toggle_eq:
  "\<not> lock s \<Longrightarrow> toggle_collapse s a =
     (case comments s a of
        Some c \<Rightarrow> Some (True, s\<lparr>comments := (comments s)(a \<mapsto> c\<lparr>collapsed := \<not> collapsed c\<rparr>)\<rparr>)
      | None \<Rightarrow> Some (False, s))"
  by (simp add: toggle_collapse_def with_lock_def split: option.splits)

lemma wf_upvote:
  assumes wf: "wf_store s" and res: "upvote_comment s a = Some (b, s')"
  shows "wf_store s'"
proof -
  from wf have free: "\<not> lock s" by (simp add: wf_store_def)
  show ?thesis
  proof (cases "comments s a")
    case None
    with res wf show ?thesis by (simp add: upvote_eq [OF free])
  next
    case (Some c)
    with res wf_update_flags [OF wf Some] show ?thesis by (auto simp: upvote_eq [OF free])
  qed
qed

lemma wf_downvote:
  assumes wf: "wf_store s" and res: "downvote_comment s a = Some (b, s')"
  shows "wf_store s'"
proof -
  from wf have free: "\<not> lock s" by (simp add: wf_store_def)
  show ?thesis
  proof (cases "comments s a")
    case None
    with res wf show ?thesis by (simp add: downvote_eq [OF free])
  next
    case (Some c)
    with res wf_update_flags [OF wf Some] show ?thesis by (auto simp: downvote_eq [OF free])
  qed
qed

lemma wf_toggle:
  assumes wf: "wf_store s" and res: "toggle_collapse s a = Some (b, s')"
  shows "wf_store s'"
proof -
  from wf have free: "\<not> lock s" by (simp add: wf_store_def)
  show ?thesis
  proof (cases "comments s a")
    case None
    with res wf show ?thesis by (simp add: toggle_eq [OF free])
  next
    case (Some c)
    with res wf_update_flags [OF wf Some] show ?thesis by (auto simp: toggle_eq [OF free])
  qed
qed

lemma get_comments_view_state:
  "\<not> lock s \<Longrightarrow> get_comments_view s k v = Some (r, s') \<Longrightarrow> s' = s"
  by (auto simp: get_comments_view_def with_lock_def split: option.splits if_splits Option.bind_splits)

lemma get_user_comments_eq:
  "\<not> lock s \<Longrightarrow> get_user_comments s u =
     (case user_comments s u of
        None \<Rightarrow> Some (Inr [], s)
      | Some l \<Rightarrow> Some (lookup_all (comments s) l, s))"
  by (simp add: get_user_comments_def with_lock_def split: option.splits)

lemma get_user_comments_state:
  "\<not> lock s \<Longrightarrow> get_user_comments s u = Some (r, s') \<Longrightarrow> s' = s"
  by (auto simp: get_user_comments_eq split: option.splits)

theorem reachable_wf: "reachable s \<Longrightarrow> wf_store s"
proof (induction rule: reachable.induct)
  case r_init
  show ?case
    by (simp add: wf_store_def init_store_def graph_ok_def posts_ok_def users_ok_def)
next
  case (r_create_post s t p s')
  then show ?case by (blast intro: wf_create_post)
next
  case (r_add_comment s post_id u c parent now r s')
  then show ?case by (blast intro: wf_add_comment)
next
  case (r_get_comments_view s post_id v rv s')
  then show ?case using get_comments_view_state [of s post_id v rv s'] by (simp add: wf_store_def)
next
  case (r_upvote s a b s')
  then show ?case by (blast intro: wf_upvote)
next
  case (r_downvote s a b s')
  then show ?case by (blast intro: wf_downvote)
next
  case (r_toggle s a b s')
  then show ?case by (blast intro: wf_toggle)
next
  case (r_get_user_comments s u rv s')
  then show ?case using get_user_comments_state [of s u rv s'] by (simp add: wf_store_def)
next
  case (r_delete s a rd s')
  then show ?case by (blast intro: wf_delete)
qed

section \<open>The per-user index\<close>

lemma lookup_all_present: "\<forall>i \<in> set l. m i \<noteq> None \<Longrightarrow> lookup_all m l = Inr l"
  by (induction l) auto

section \<open>Depth of a new comment\<close>

lemma hops_preserved:
  assumes "hops m i d"
    and "\<And>j c. m j = Some c \<Longrightarrow> \<exists>c'. m' j = Some c' \<and> parent_comment_id c' = parent_comment_id c"
  shows "hops m' i d"
  using assms
proof (induction rule: hops.induct)
  case (hops_root m i c)
  from hops_root.prems [OF hops_root.hyps(1)] hops_root.hyps(2) show ?case
    by (auto intro: hops.hops_root)
next
  case (hops_step m i c p k)
  from hops_step.prems [OF hops_step.hyps(1)] hops_step.hyps(2)
  obtain c' where "m' i = Some c'" "parent_comment_id c' = Some p" by auto
  moreover have "hops m' p k" using hops_step.prems by (intro hops_step.IH) blast
  ultimately show ?case by (rule hops.hops_step)
qed

lemma hops_after_reply:
  assumes g: "graph_ok m n" and p: "m p = Some pc" and d: "hops m p d"
  shows "hops (m(n \<mapsto> new_comment n u tx now (Some p), p \<mapsto> pc\<lparr>replies := rs, collapsed := b\<rparr>)) n (Suc d)"
    (is "hops ?m' _ _")
proof -
  have fresh: "m n = None" using g by (rule graph_ok_fresh)
  with p have pn: "p \<noteq> n" by auto
  have "hops ?m' p d"
    using d
  proof (rule hops_preserved)
    fix j c assume "m j = Some c"
    with fresh p show "\<exists>c'. ?m' j = Some c' \<and> parent_comment_id c' = parent_comment_id c"
      by (cases "j = p") auto
  qed
  moreover have "?m' n = Some (new_comment n u tx now (Some p))" using pn by simp
  moreover have "parent_comment_id (new_comment n u tx now (Some p)) = Some p"
    by (simp add: new_comment_def)
  ultimately show ?thesis by (rule hops_step [rotated 2])
qed

lemma created_depth:
  assumes r: "reachable s" and res: "add_comment s k u tx par now = Some (Inr (Some n), s')"
  shows "n = next_comment_id s \<and> (\<exists>d. hops (comments s') n d \<and> d \<le> 4)"
proof -
  note wf = reachable_wf [OF r]
  from wf have l: "\<not> lock s" and g: "graph_ok (comments s) (next_comment_id s)"
    by (simp_all add: wf_store_def)
  consider (reject) "u = [] \<or> strip tx = [] \<or> map_of (posts s) k = None
         \<or> (\<exists>pid. par = Some pid \<and> comments s pid = None)"
    | (root) p where "u \<noteq> []" "strip tx \<noteq> []" "map_of (posts s) k = Some p" "par = None"
    | (reply) po p pc where "u \<noteq> []" "strip tx \<noteq> []" "map_of (posts s) k = Some po"
        "par = Some p" "comments s p = Some pc"
    by (cases par; cases "map_of (posts s) k"; cases "comments s (the par)") auto
  then show ?thesis
  proof cases
    case reject
    from add_comment_absent [OF l this] res show ?thesis by simp
  next
    case root
    from add_comment_root_eq [OF l root(1,2,3)] res root(4)
    have n: "n = next_comment_id s"
      and m': "comments s' = (comments s)(n \<mapsto> new_comment n u tx now None)" by auto
    have "hops (comments s') n 0"
      unfolding m' by (rule hops_root [where c = "new_comment n u tx now None"])
        (simp_all add: new_comment_def)
    with n show ?thesis by auto
  next
    case reply
    from hops_total [OF g reply(5)] obtain d where d: "hops (comments s) p d" by blast
    show ?thesis
    proof (cases "d \<le> 3")
      case True
      from add_comment_reply_eq [OF wf reply(1,2) _ reply(5) d True, of k "now"] reply(3,4) res
      obtain t where n: "n = next_comment_id s"
        and m': "comments s' = (comments s)(n \<mapsto> new_comment n u tx now (Some p),
            p \<mapsto> pc\<lparr>replies := replies pc @ [n], collapsed := collapsed pc \<or> 10 < descendants t\<rparr>)"
        by auto
      have "hops (comments s') n (Suc d)"
        unfolding m' n using g reply(5) d by (rule hops_after_reply)
      with n True show ?thesis by auto
    next
      case False
      then have "4 \<le> d" by simp
      from add_comment_deep_eq [OF wf _ d this, of k u "tx" "now"] reply(3,4) res
      show ?thesis by auto
    qed
  qed
qed

section \<open>Counting replies and the collapse flag\<close>

lemma trees_flags:
  assumes "list_all2 (tree_of m) rs ts"
    and "\<And>t a. t \<in> set ts \<Longrightarrow> tree_of m a t \<Longrightarrow> \<exists>t'. tree_of m' a t' \<and> descendants t' = descendants t"
  shows "\<exists>ts'. list_all2 (tree_of m') rs ts' \<and> map descendants ts' = map descendants ts"
  using assms
proof (induction rs ts rule: list_all2_induct)
  case Nil
  show ?case by simp
next
  case (Cons r rs t ts)
  from Cons.prems [of t r] Cons.hyps(1) obtain t' where
    t': "tree_of m' r t'" "descendants t' = descendants t" by auto
  from Cons.IH Cons.prems obtain ts' where
    ts': "list_all2 (tree_of m') rs ts'" "map descendants ts' = map descendants ts" by auto
  from t' ts' have "list_all2 (tree_of m') (r # rs) (t' # ts') \<and>
      map descendants (t' # ts') = map descendants (t # ts)" by simp
  then show ?case by blast
qed

lemma descendants_map:
  "descendants (Node a col ts) = length ts + sum_list (map descendants ts)"
  by (simp add: sum_list_Suc)

lemma tree_flags:
  assumes same: "\<And>j c. m j = Some c \<Longrightarrow> \<exists>c'. m' j = Some c' \<and> replies c' = replies c"
  shows "tree_of m a t \<Longrightarrow> \<exists>t'. tree_of m' a t' \<and> descendants t' = descendants t"
proof (induction t arbitrary: a)
  case (Node b col ts)
  from Node.prems obtain c where c: "m a = Some c" "b = a"
    "list_all2 (tree_of m) (replies c) ts" by (auto elim: tree_of.cases)
  from same [OF c(1)] obtain c' where c': "m' a = Some c'" "replies c' = replies c" by blast
  from trees_flags [OF c(3), of m'] Node.IH obtain ts' where
    ts': "list_all2 (tree_of m') (replies c) ts'" "map descendants ts' = map descendants ts"
    by blast
  from c'(1) ts'(1) have "tree_of m' a (Node a (collapsed c') ts')"
    by (intro tree_ofI) (simp_all add: c'(2))
  moreover have "length ts' = length ts" using ts'(2) by (metis length_map)
  then have "descendants (Node a (collapsed c') ts') = descendants (Node b col ts)"
    using ts'(2) by (simp only: descendants_map)
  ultimately show ?case by blast
qed

lemma count_leaves:
  assumes "m p = Some c" "\<forall>r \<in> set (replies c). \<exists>rc. m r = Some rc \<and> replies rc = []"
  shows "count_total_replies m p = Some (length (replies c))"
proof -
  have leaf: "count_total_replies m r = Some 0" if "r \<in> set (replies c)" for r
  proof -
    from assms(2) that obtain rc where rc: "m r = Some rc" "replies rc = []" by blast
    show ?thesis by (simp add: count_total_replies_unfold [of m r rc, OF rc(1)] rc(2))
  qed
  have "list_all2 (\<lambda>r k. count_total_replies m r = Some k) (replies c) (map (\<lambda>_. 0) (replies c))"
    using leaf by (simp add: list_all2_map2 list_all2_same)
  from count_loop [OF this, of "length (replies c)"] show ?thesis
    by (simp add: count_total_replies_unfold [of m p c, OF assms(1)])
qed

lemma add_comment_success_valid:
  assumes l: "\<not> lock s" and res: "add_comment s k u tx par now = Some (Inr (Some n), s')"
  shows "u \<noteq> [] \<and> strip tx \<noteq> [] \<and> map_of (posts s) k \<noteq> None
     \<and> (\<forall>p. par = Some p \<longrightarrow> comments s p \<noteq> None)"
proof (rule ccontr)
  assume "\<not> ?thesis"
  then have "u = [] \<or> strip tx = [] \<or> map_of (posts s) k = None
         \<or> (\<exists>pid. par = Some pid \<and> comments s pid = None)" by auto
  from add_comment_absent [OF l this, of "now"] res show False by simp
qed

lemma reply_collapse:
  assumes r: "reachable s" and res: "add_comment s k u tx (Some p) now = Some (Inr (Some n), s')"
  shows "\<exists>pc t. comments s p = Some pc \<and> n = next_comment_id s
      \<and> tree_of (comments s') p t
      \<and> comments s' = (comments s)(n \<mapsto> new_comment n u tx now (Some p),
            p \<mapsto> pc\<lparr>replies := replies pc @ [n], collapsed := collapsed pc \<or> 10 < descendants t\<rparr>)"
proof -
  note wf = reachable_wf [OF r]
  from wf have l: "\<not> lock s" and g: "graph_ok (comments s) (next_comment_id s)"
    by (simp_all add: wf_store_def)
  have ok: "u \<noteq> []" "strip tx \<noteq> []" "map_of (posts s) k \<noteq> None" "comments s p \<noteq> None"
    using add_comment_success_valid [OF l res] by auto
  then obtain pc where pc: "comments s p = Some pc" by auto
  from hops_total [OF g pc] obtain d where d: "hops (comments s) p d" by blast
  have le: "d \<le> 3"
  proof (rule ccontr)
    assume "\<not> d \<le> 3"
    then have "4 \<le> d" by simp
    from add_comment_deep_eq [OF wf ok(3) d this, of u "tx" "now"] res show False by simp
  qed
  let ?m2 = "(comments s)(next_comment_id s \<mapsto> new_comment (next_comment_id s) u tx now (Some p),
                        p \<mapsto> pc\<lparr>replies := replies pc @ [next_comment_id s]\<rparr>)"
  from add_comment_reply_eq [OF wf ok(1,2,3) pc d le, of "now"] res
  obtain t where t: "tree_of ?m2 p t" and n: "n = next_comment_id s"
    and m': "comments s' = (comments s)(n \<mapsto> new_comment n u tx now (Some p),
            p \<mapsto> pc\<lparr>replies := replies pc @ [n], collapsed := collapsed pc \<or> 10 < descendants t\<rparr>)"
    by auto
  have "\<exists>t'. tree_of (comments s') p t' \<and> descendants t' = descendants t"
  proof (rule tree_flags [OF _ t])
    fix j c assume "?m2 j = Some c"
    then show "\<exists>c'. comments s' j = Some c' \<and> replies c' = replies c"
      unfolding m' n by (cases "j = p") (auto split: if_splits)
  qed
  then obtain t' where t': "tree_of (comments s') p t'" "descendants t' = descendants t" by blast
  with pc n m' show ?thesis by auto
qed

lemma root_flags:
  assumes r: "reachable s" and res: "add_comment s k u tx None now = Some (Inr (Some n), s')"
  shows "comments s' = (comments s)(n \<mapsto> new_comment n u tx now None) \<and> n = next_comment_id s"
proof -
  note wf = reachable_wf [OF r]
  from wf have l: "\<not> lock s" by (simp add: wf_store_def)
  have ok: "u \<noteq> []" "strip tx \<noteq> []" "map_of (posts s) k \<noteq> None"
    using add_comment_success_valid [OF l res] by auto
  then obtain po where "map_of (posts s) k = Some po" by auto
  from add_comment_root_eq [OF l ok(1,2) this, of "now"] res show ?thesis by auto
qed

lemma add_replies_collapse:
  assumes "reachable s" "map_of (posts s) k \<noteq> None" "hops (comments s) p d" "d \<le> 3"
    and "comments s p = Some pc"
    and "\<forall>r \<in> set (replies pc). \<exists>rc. comments s r = Some rc \<and> replies rc = []"
    and "collapsed pc \<longleftrightarrow> 10 < length (replies pc)"
    and "\<forall>(u, tx, now) \<in> set xs. u \<noteq> [] \<and> strip tx \<noteq> []"
  shows "\<exists>s' pc'. add_replies s k p xs = Some (Inr s') \<and> comments s' p = Some pc'
      \<and> length (replies pc') = length (replies pc) + length xs
      \<and> (collapsed pc' \<longleftrightarrow> 10 < length (replies pc'))"
  using assms
proof (induction xs arbitrary: s pc)
  case Nil
  then show ?case by simp
next
  case (Cons x xs)
  obtain u tx tm where x: "x = (u, tx, tm)" by (cases x)
  from Cons.prems(8) x have valid: "u \<noteq> []" "strip tx \<noteq> []" by auto
  note r = Cons.prems(1) and pc = Cons.prems(5)
  note wf = reachable_wf [OF r]
  from wf have g: "graph_ok (comments s) (next_comment_id s)" by (simp add: wf_store_def)
  let ?n = "next_comment_id s"
  let ?new = "new_comment ?n u tx tm (Some p)"
  let ?m2 = "(comments s)(?n \<mapsto> ?new, p \<mapsto> pc\<lparr>replies := replies pc @ [?n]\<rparr>)"
  have fresh: "comments s ?n = None" using g by (rule graph_ok_fresh)
  with pc have pn: "p \<noteq> ?n" by auto
  have not_p: "r \<noteq> p" "r \<noteq> ?n" if "r \<in> set (replies pc)" for r
    using graph_ok_reply [OF g pc that] graph_ok_parent [OF g, of r _ p] fresh by auto
  from add_comment_reply_eq [OF wf valid Cons.prems(2) pc Cons.prems(3,4), of "tm"]
  obtain t where t: "tree_of ?m2 p t"
    and res: "add_comment s k u tx (Some p) tm =
     Some (Inr (Some ?n),
       s\<lparr>next_comment_id := ?n + 1,
         comments := (comments s)(?n \<mapsto> ?new,
            p \<mapsto> pc\<lparr>replies := replies pc @ [?n], collapsed := collapsed pc \<or> 10 < descendants t\<rparr>),
         user_comments := (user_comments s)(u \<mapsto>
            (case user_comments s u of None \<Rightarrow> [] | Some l \<Rightarrow> l) @ [?n])\<rparr>)"
      (is "_ = Some (_, ?s1)")
    by blast
  let ?pc1 = "pc\<lparr>replies := replies pc @ [?n], collapsed := collapsed pc \<or> 10 < descendants t\<rparr>"
  have leaves2: "\<forall>r \<in> set (replies (pc\<lparr>replies := replies pc @ [?n]\<rparr>)).
      \<exists>rc. ?m2 r = Some rc \<and> replies rc = []"
    using Cons.prems(6) not_p pn by (auto simp: new_comment_def)
  have "count_total_replies ?m2 p = Some (length (replies (pc\<lparr>replies := replies pc @ [?n]\<rparr>)))"
    by (rule count_leaves [OF _ leaves2]) simp
  with count_total_replies_tree [OF t] have size: "descendants t = length (replies pc) + 1" by simp
  have 1: "reachable ?s1" using r res by (rule r_add_comment)
  have 2: "map_of (posts ?s1) k \<noteq> None" using Cons.prems(2) by simp
  have 3: "hops (comments ?s1) p d"
    using Cons.prems(3)
  proof (rule hops_preserved)
    fix j c assume "comments s j = Some c"
    with fresh pc show "\<exists>c'. comments ?s1 j = Some c' \<and> parent_comment_id c' = parent_comment_id c"
      by (cases "j = p") auto
  qed
  have 5: "comments ?s1 p = Some ?pc1" by simp
  have 6: "\<forall>r \<in> set (replies ?pc1). \<exists>rc. comments ?s1 r = Some rc \<and> replies rc = []"
    using Cons.prems(6) not_p pn by (auto simp: new_comment_def)
  have 7: "collapsed ?pc1 \<longleftrightarrow> 10 < length (replies ?pc1)"
    using Cons.prems(7) size by auto
  have 8: "\<forall>(u, tx, tm) \<in> set xs. u \<noteq> [] \<and> strip tx \<noteq> []" using Cons.prems(8) by simp
  from Cons.IH [OF 1 2 3 Cons.prems(4) 5 6 7 8]
  obtain s' pc' where "add_replies ?s1 k p xs = Some (Inr s')" "comments s' p = Some pc'"
    "length (replies pc') = length (replies ?pc1) + length xs"
    "collapsed pc' \<longleftrightarrow> 10 < length (replies pc')" by blast
  with res x show ?case by (intro exI [of _ s'] exI [of _ pc']) simp
qed

section \<open>What the flat view shows\<close>

lemma list_all2_setD2: "list_all2 P xs ys \<Longrightarrow> y \<in> set ys \<Longrightarrow> \<exists>x \<in> set xs. P x y"
  by (induction xs ys rule: list_all2_induct) auto

lemma preorder_root: "tree_of m a t \<Longrightarrow> a \<in> set (preorder t)"
  by (auto elim!: tree_of.cases)

lemma preorder_parent:
  assumes g: "graph_ok m n"
  shows "tree_of m a t \<Longrightarrow> x \<in> set (preorder t) \<Longrightarrow>
     x = a \<or> (\<exists>q qc xc. m x = Some xc \<and> parent_comment_id xc = Some q \<and> m q = Some qc
                 \<and> \<not> collapsed qc \<and> q \<in> set (preorder t))"
proof (induction t arbitrary: a x)
  case (Node b col ts)
  from Node.prems(1) obtain c where c: "m a = Some c" "b = a" "col = collapsed c"
    "list_all2 (tree_of m) (replies c) ts" by (auto elim: tree_of.cases)
  show ?case
  proof (cases "x = a")
    case True
    then show ?thesis by simp
  next
    case False
    with Node.prems(2) c(2) have open_c: "\<not> col"
      and "x \<in> set (concat (map preorder ts))" by (auto split: if_splits)
    then obtain t' where t': "t' \<in> set ts" "x \<in> set (preorder t')" by auto
    from list_all2_setD2 [OF c(4) t'(1)] obtain r where r: "r \<in> set (replies c)" "tree_of m r t'"
      by blast
    have sub: "set (preorder t') \<subseteq> set (preorder (Node b col ts))"
      using t'(1) open_c by auto
    from Node.IH [OF t'(1) r(2) t'(2)]
    show ?thesis
    proof
      assume "x = r"
      from graph_ok_reply [OF g c(1) r(1)] obtain rc where
        "m r = Some rc" "parent_comment_id rc = Some a" by blast
      with \<open>x = r\<close> c open_c show ?thesis by auto
    next
      assume "\<exists>q qc xc. m x = Some xc \<and> parent_comment_id xc = Some q \<and> m q = Some qc
                 \<and> \<not> collapsed qc \<and> q \<in> set (preorder t')"
      with sub show ?thesis by blast
    qed
  qed
qed

lemma forest_parent:
  assumes g: "graph_ok m n" and ts: "list_all2 (tree_of m) cs ts"
    and x: "x \<in> set (concat (map preorder ts))"
  shows "x \<in> set cs \<or> (\<exists>q qc xc. m x = Some xc \<and> parent_comment_id xc = Some q \<and> m q = Some qc
                 \<and> \<not> collapsed qc \<and> q \<in> set (concat (map preorder ts)))"
proof -
  from x obtain t where t: "t \<in> set ts" "x \<in> set (preorder t)" by auto
  from list_all2_setD2 [OF ts t(1)] obtain a where a: "a \<in> set cs" "tree_of m a t" by blast
  from preorder_parent [OF g a(2) t(2)] a(1) t(1) show ?thesis by auto
qed

lemma hidden_below:
  assumes g: "graph_ok m n" and ts: "list_all2 (tree_of m) cs ts"
    and roots: "\<And>a. a \<in> set cs \<Longrightarrow> \<exists>c. m a = Some c \<and> parent_comment_id c = None"
  shows "below m a x \<Longrightarrow> x \<in> set (concat (map preorder ts)) \<Longrightarrow>
     a \<in> set (concat (map preorder ts)) \<and> (\<forall>c. m a = Some c \<longrightarrow> \<not> collapsed c)"
proof (induction rule: below.induct)
  case (below_child a c r)
  from graph_ok_reply [OF g below_child.hyps] obtain rc where
    rc: "m r = Some rc" "parent_comment_id rc = Some a" by blast
  from forest_parent [OF g ts below_child.prems] roots [of r] rc below_child.hyps(1)
  show ?case by auto
next
  case (below_deeper a y cy r)
  from graph_ok_reply [OF g below_deeper.hyps(2,3)] obtain rc where
    rc: "m r = Some rc" "parent_comment_id rc = Some y" by blast
  from forest_parent [OF g ts below_deeper.prems] roots [of r] rc
  have "y \<in> set (concat (map preorder ts))" by auto
  then show ?case by (rule below_deeper.IH)
qed

lemma below_in_index:
  assumes g: "graph_ok m n"
  shows "below m a x \<Longrightarrow> m x \<noteq> None"
proof (induction rule: below.induct)
  case (below_child a c r)
  from graph_ok_reply [OF g below_child.hyps] show ?case by auto
next
  case (below_deeper a y cy r)
  from graph_ok_reply [OF g below_deeper.hyps(2,3)] show ?case by auto
qed

lemma get_comments_view_flat:
  assumes "\<not> lock s" "map_of (posts s) k = Some po"
    "flatten_comments (comments s) (comments_post po) = Some out"
  shows "get_comments_view s k ''flat'' = Some (Inr out, s)"
  using assms by (simp add: get_comments_view_def with_lock_def)

section \<open>Replies to a parent whose replies are leaves\<close>

lemma add_comment_reply_leaves_eq:
  assumes wf: "wf_store s" and valid: "u \<noteq> []" "strip tx \<noteq> []" "map_of (posts s) k \<noteq> None"
    and pc: "comments s p = Some pc" and d: "hops (comments s) p d" "d \<le> 3"
    and leaves: "\<forall>r \<in> set (replies pc). \<exists>rc. comments s r = Some rc \<and> replies rc = []"
  shows "add_comment s k u tx (Some p) tm =
     Some (Inr (Some (next_comment_id s)),
       s\<lparr>next_comment_id := next_comment_id s + 1,
         comments := (comments s)(next_comment_id s \<mapsto> new_comment (next_comment_id s) u tx tm (Some p),
            p \<mapsto> pc\<lparr>replies := replies pc @ [next_comment_id s],
                     collapsed := collapsed pc \<or> 10 < length (replies pc) + 1\<rparr>),
         user_comments := (user_comments s)(u \<mapsto>
            (case user_comments s u of None \<Rightarrow> [] | Some l \<Rightarrow> l) @ [next_comment_id s])\<rparr>)"
proof -
  from wf have g: "graph_ok (comments s) (next_comment_id s)" by (simp add: wf_store_def)
  let ?n = "next_comment_id s"
  let ?new = "new_comment ?n u tx tm (Some p)"
  let ?m2 = "(comments s)(?n \<mapsto> ?new, p \<mapsto> pc\<lparr>replies := replies pc @ [?n]\<rparr>)"
  have fresh: "comments s ?n = None" using g by (rule graph_ok_fresh)
  with pc have pn: "p \<noteq> ?n" by auto
  have not_p: "r \<noteq> p" "r \<noteq> ?n" if "r \<in> set (replies pc)" for r
    using graph_ok_reply [OF g pc that] graph_ok_parent [OF g, of r _ p] fresh by auto
  from add_comment_reply_eq [OF wf valid pc d, of "tm"]
  obtain t where t: "tree_of ?m2 p t"
    and res: "add_comment s k u tx (Some p) tm =
     Some (Inr (Some ?n),
       s\<lparr>next_comment_id := ?n + 1,
         comments := (comments s)(?n \<mapsto> ?new,
            p \<mapsto> pc\<lparr>replies := replies pc @ [?n], collapsed := collapsed pc \<or> 10 < descendants t\<rparr>),
         user_comments := (user_comments s)(u \<mapsto>
            (case user_comments s u of None \<Rightarrow> [] | Some l \<Rightarrow> l) @ [?n])\<rparr>)"
    by blast
  have leaves2: "\<forall>r \<in> set (replies (pc\<lparr>replies := replies pc @ [?n]\<rparr>)).
      \<exists>rc. ?m2 r = Some rc \<and> replies rc = []"
    using leaves not_p pn by (auto simp: new_comment_def)
  have "count_total_replies ?m2 p = Some (length (replies (pc\<lparr>replies := replies pc @ [?n]\<rparr>)))"
    by (rule count_leaves [OF _ leaves2]) simp
  with count_total_replies_tree [OF t] have "descendants t = length (replies pc) + 1" by simp
  with res show ?thesis by simp
qed

section \<open>The example stores are reachable\<close>

lemmas ex_defs = store_one_post_def post1_def ex1_def ex2_def ex3_def ex3_collapsed_def ex_users_def
  new_comment_def

lemma not_blank:
  "strip ''First comment.'' \<noteq> []" "strip ''Second comment.'' \<noteq> []"
  "strip ''Reply to first comment.'' \<noteq> []" "strip ''Another comment from User1.'' \<noteq> []"
  by (simp_all add: strip_def is_space_def)

lemma reply_step:
  assumes "reachable s" "u \<noteq> []" "strip tx \<noteq> []" "map_of (posts s) k \<noteq> None"
    and "comments s p = Some pc" and "hops (comments s) p d" "d \<le> 3"
    and "\<forall>r \<in> set (replies pc). \<exists>rc. comments s r = Some rc \<and> replies rc = []"
    and "n = next_comment_id s"
    and "s' = s\<lparr>next_comment_id := next_comment_id s + 1,
         comments := (comments s)(next_comment_id s \<mapsto> new_comment (next_comment_id s) u tx tm (Some p),
            p \<mapsto> pc\<lparr>replies := replies pc @ [next_comment_id s],
                     collapsed := collapsed pc \<or> 10 < length (replies pc) + 1\<rparr>),
         user_comments := (user_comments s)(u \<mapsto>
            (case user_comments s u of None \<Rightarrow> [] | Some l \<Rightarrow> l) @ [next_comment_id s])\<rparr>"
  shows "add_comment s k u tx (Some p) tm = Some (Inr (Some n), s')"
  unfolding assms(9,10)
  by (rule add_comment_reply_leaves_eq [OF reachable_wf [OF assms(1)] assms(2-8)])

lemma root_step:
  assumes "reachable s" "u \<noteq> []" "strip tx \<noteq> []" "map_of (posts s) k = Some p"
    and "n = next_comment_id s"
    and "s' = s\<lparr>next_comment_id := next_comment_id s + 1,
         comments := (comments s)(next_comment_id s \<mapsto> new_comment (next_comment_id s) u tx tm None),
         user_comments := (user_comments s)(u \<mapsto>
            (case user_comments s u of None \<Rightarrow> [] | Some l \<Rightarrow> l) @ [next_comment_id s]),
         posts := AList.update k (p\<lparr>comments_post := comments_post p @ [next_comment_id s]\<rparr>) (posts s)\<rparr>"
  shows "add_comment s k u tx None tm = Some (Inr (Some n), s')"
proof -
  from reachable_wf [OF assms(1)] have "\<not> lock s" by (simp add: wf_store_def)
  from add_comment_root_eq [OF this assms(2,3,4)] show ?thesis unfolding assms(5,6) .
qed

lemma step0: "create_post init_store ''Post Title'' =
    Some (\<lparr>id_post = 1, title = ''Post Title'', comments_post = []\<rparr>, store_one_post)"
  by (simp add: create_post_eq init_store_def store_one_post_def)

lemma reachable_one_post: "reachable store_one_post"
  using r_init step0 by (rule r_create_post)

lemma step1: "add_comment store_one_post 1 ''User1'' ''First comment.'' None 0 = Some (Inr (Some 1), ex1)"
  by (rule root_step [OF reachable_one_post, where p = "\<lparr>id_post = 1, title = ''Post Title'', comments_post = []\<rparr>"])
    (simp_all add: not_blank ex_defs)

lemma reachable_ex1: "reachable ex1"
  using reachable_one_post step1 by (rule r_add_comment)

lemma step2: "add_comment ex1 1 ''User2'' ''Second comment.'' None 0 = Some (Inr (Some 2), ex2)"
  by (rule root_step [OF reachable_ex1, where p = "\<lparr>id_post = 1, title = ''Post Title'', comments_post = [1]\<rparr>"])
    (simp_all add: not_blank ex_defs)

lemma reachable_ex2: "reachable ex2"
  using reachable_ex1 step2 by (rule r_add_comment)

lemma hops_ex2: "hops (comments ex2) 1 0"
  by (rule hops_root [where c = "new_comment 1 ''User1'' ''First comment.'' 0 None"])
    (simp_all add: ex_defs)

lemma step3: "add_comment ex2 1 ''User3'' ''Reply to first comment.'' (Some 1) 0 = Some (Inr (Some 3), ex3)"
  by (rule reply_step [OF reachable_ex2 _ _ _ _ hops_ex2,
        where pc = "new_comment 1 ''User1'' ''First comment.'' 0 None"])
    (simp_all add: not_blank ex_defs)

lemma reachable_ex3: "reachable ex3"
  using reachable_ex2 step3 by (rule r_add_comment)

lemma step3c: "toggle_collapse ex3 1 = Some (True, ex3_collapsed)"
  by (simp add: toggle_eq ex_defs)

lemma reachable_ex3_collapsed: "reachable ex3_collapsed"
  using reachable_ex3 step3c by (rule r_toggle)

lemma step3u: "add_comment ex2 1 ''User1'' ''Another comment from User1.'' None 0 = Some (Inr (Some 3), ex_users)"
  by (rule root_step [OF reachable_ex2, where p = "\<lparr>id_post = 1, title = ''Post Title'', comments_post = [1, 2]\<rparr>"])
    (simp_all add: not_blank ex_defs)

lemma reachable_ex_users: "reachable ex_users"
  using reachable_ex2 step3u by (rule r_add_comment)

lemmas ch_defs = store_one_post_def post1_def ch1_def ch2_def ch3_def ch4_def ch5_def new_comment_def

lemma not_blank_ch:
  "strip ''This is a comment.'' \<noteq> []" "strip ''Reply 1'' \<noteq> []" "strip ''Reply 2'' \<noteq> []"
  "strip ''Reply 3'' \<noteq> []" "strip ''Reply 4'' \<noteq> []" "strip ''This is a 5th-level reply.'' \<noteq> []"
  by (simp_all add: strip_def is_space_def)

lemma ch_step1: "add_comment store_one_post 1 ''User1'' ''This is a comment.'' None 0 = Some (Inr (Some 1), ch1)"
  by (rule root_step [OF reachable_one_post, where p = "\<lparr>id_post = 1, title = ''Post Title'', comments_post = []\<rparr>"])
    (simp_all add: not_blank_ch ch_defs)

lemma reachable_ch1: "reachable ch1"
  using reachable_one_post ch_step1 by (rule r_add_comment)

lemma hops_ch1: "hops (comments ch1) 1 0"
  by (rule hops_root [where c = "new_comment 1 ''User1'' ''This is a comment.'' 0 None"])
    (simp_all add: ch_defs)

lemma ch_step2: "add_comment ch1 1 ''User2'' ''Reply 1'' (Some 1) 0 = Some (Inr (Some 2), ch2)"
  by (rule reply_step [OF reachable_ch1 _ _ _ _ hops_ch1,
        where pc = "new_comment 1 ''User1'' ''This is a comment.'' 0 None"])
    (simp_all add: not_blank_ch ch_defs)

lemma reachable_ch2: "reachable ch2"
  using reachable_ch1 ch_step2 by (rule r_add_comment)

lemma hops_ch2: "hops (comments ch2) 2 (Suc 0)"
  by (rule hops_step [where c = "new_comment 2 ''User2'' ''Reply 1'' 0 (Some 1)" and p = 1],
      simp add: ch_defs, simp add: ch_defs,
      rule hops_root [where c = "(new_comment 1 ''User1'' ''This is a comment.'' 0 None)\<lparr>replies := [2]\<rparr>"])
    (simp_all add: ch_defs)

lemma ch_step3: "add_comment ch2 1 ''User3'' ''Reply 2'' (Some 2) 0 = Some (Inr (Some 3), ch3)"
  by (rule reply_step [OF reachable_ch2 _ _ _ _ hops_ch2,
        where pc = "new_comment 2 ''User2'' ''Reply 1'' 0 (Some 1)"])
    (simp_all add: not_blank_ch ch_defs)

lemma reachable_ch3: "reachable ch3"
  using reachable_ch2 ch_step3 by (rule r_add_comment)

lemma graph_ok_reachable: "reachable s \<Longrightarrow> graph_ok (comments s) (next_comment_id s)"
  using reachable_wf by (simp add: wf_store_def)

lemma hops_ch3: "hops (comments ch3) 3 (Suc (Suc 0))"
  using hops_after_reply [OF graph_ok_reachable [OF reachable_ch2] _ hops_ch2,
      where pc = "new_comment 2 ''User2'' ''Reply 1'' 0 (Some 1)" and u = "''User3''"
        and tx = "''Reply 2''" and now = 0 and rs = "[3]" and b = False]
  by (simp add: ch_defs)

lemma ch_step4: "add_comment ch3 1 ''User4'' ''Reply 3'' (Some 3) 0 = Some (Inr (Some 4), ch4)"
  by (rule reply_step [OF reachable_ch3 _ _ _ _ hops_ch3,
        where pc = "new_comment 3 ''User3'' ''Reply 2'' 0 (Some 2)"])
    (simp_all add: not_blank_ch ch_defs)

lemma reachable_ch4: "reachable ch4"
  using reachable_ch3 ch_step4 by (rule r_add_comment)

lemma hops_ch4: "hops (comments ch4) 4 (Suc (Suc (Suc 0)))"
  using hops_after_reply [OF graph_ok_reachable [OF reachable_ch3] _ hops_ch3,
      where pc = "new_comment 3 ''User3'' ''Reply 2'' 0 (Some 2)" and u = "''User4''"
        and tx = "''Reply 3''" and now = 0 and rs = "[4]" and b = False]
  by (simp add: ch_defs)

lemma ch_step5: "add_comment ch4 1 ''User5'' ''Reply 4'' (Some 4) 0 = Some (Inr (Some 5), ch5)"
  by (rule reply_step [OF reachable_ch4 _ _ _ _ hops_ch4,
        where pc = "new_comment 4 ''User4'' ''Reply 3'' 0 (Some 3)"])
    (simp_all add: not_blank_ch ch_defs)

lemma reachable_ch5: "reachable ch5"
  using reachable_ch4 ch_step5 by (rule r_add_comment)

lemma hops_ch5: "hops (comments ch5) 5 (Suc (Suc (Suc (Suc 0))))"
  using hops_after_reply [OF graph_ok_reachable [OF reachable_ch4] _ hops_ch4,
      where pc = "new_comment 4 ''User4'' ''Reply 3'' 0 (Some 3)" and u = "''User5''"
        and tx = "''Reply 4''" and now = 0 and rs = "[5]" and b = False]
  by (simp add: ch_defs)

lemmas sp_defs = store_one_post_def post1_def sp1_def sp2_def new_comment_def

lemma not_blank_sp: "strip ''hi'' \<noteq> []" "strip ''hello'' \<noteq> []"
  by (simp_all add: strip_def is_space_def)

lemma sp_step1: "add_comment store_one_post 1 ''Alice'' ''hi'' None 0 = Some (Inr (Some 1), sp1)"
  by (rule root_step [OF reachable_one_post, where p = "\<lparr>id_post = 1, title = ''Post Title'', comments_post = []\<rparr>"])
    (simp_all add: not_blank_sp sp_defs)

lemma reachable_sp1: "reachable sp1"
  using reachable_one_post sp_step1 by (rule r_add_comment)

lemma hops_sp1: "hops (comments sp1) 1 0"
  by (rule hops_root [where c = "new_comment 1 ''Alice'' ''hi'' 0 None"])
    (simp_all add: sp_defs)

lemma sp_step2: "add_comment sp1 1 ''Bob'' ''hello'' (Some 1) 0 = Some (Inr (Some 2), sp2)"
  by (rule reply_step [OF reachable_sp1 _ _ _ _ hops_sp1,
        where pc = "new_comment 1 ''Alice'' ''hi'' 0 None"])
    (simp_all add: not_blank_sp sp_defs)

lemma reachable_sp2: "reachable sp2"
  using reachable_sp1 sp_step2 by (rule r_add_comment)

lemma hops_ex1: "hops (comments ex1) 1 0"
  by (rule hops_root [where c = "new_comment 1 ''User1'' ''First comment.'' 0 None"])
    (simp_all add: ex_defs)

lemma trees_ex3:
  "list_all2 (tree_of (comments ex3)) [1, 2] [Node 1 False [Node 3 False []], Node 2 False []]"
proof -
  have 3: "tree_of (comments ex3) 3 (Node 3 False [])"
    using tree_ofI [of "comments ex3" 3 "new_comment 3 ''User3'' ''Reply to first comment.'' 0 (Some 1)" "[]"]
    by (simp add: ex_defs)
  have 1: "tree_of (comments ex3) 1 (Node 1 False [Node 3 False []])"
    using tree_ofI [of "comments ex3" 1 "(new_comment 1 ''User1'' ''First comment.'' 0 None)\<lparr>replies := [3]\<rparr>"
        "[Node 3 False []]"] 3
    by (simp add: ex_defs)
  have 2: "tree_of (comments ex3) 2 (Node 2 False [])"
    using tree_ofI [of "comments ex3" 2 "new_comment 2 ''User2'' ''Second comment.'' 0 None" "[]"]
    by (simp add: ex_defs)
  from 1 2 show ?thesis by simp
qed

lemma trees_ex3_collapsed:
  "list_all2 (tree_of (comments ex3_collapsed)) [1, 2] [Node 1 True [Node 3 False []], Node 2 False []]"
proof -
  have 3: "tree_of (comments ex3_collapsed) 3 (Node 3 False [])"
    using tree_ofI [of "comments ex3_collapsed" 3 "new_comment 3 ''User3'' ''Reply to first comment.'' 0 (Some 1)" "[]"]
    by (simp add: ex_defs)
  have 1: "tree_of (comments ex3_collapsed) 1 (Node 1 True [Node 3 False []])"
    using tree_ofI [of "comments ex3_collapsed" 1
        "(new_comment 1 ''User1'' ''First comment.'' 0 None)\<lparr>replies := [3], collapsed := True\<rparr>"
        "[Node 3 False []]"] 3
    by (simp add: ex_defs)
  have 2: "tree_of (comments ex3_collapsed) 2 (Node 2 False [])"
    using tree_ofI [of "comments ex3_collapsed" 2 "new_comment 2 ''User2'' ''Second comment.'' 0 None" "[]"]
    by (simp add: ex_defs)
  from 1 2 show ?thesis by simp
qed

lemma forest_functional:
  "list_all2 (tree_of m) cs ts \<Longrightarrow> list_all2 (tree_of m) cs ts' \<Longrightarrow> ts = ts'"
  by (erule list_all2_functional, assumption) (rule tree_of_functional)

section \<open>Cascading deletion (C1)\<close>

text \<open>
  C1, at the input of \<^verbatim>\<open>test_delete_comment\<close>. The calls of the test build the store
  \<open>ex3\<close>: a post, two top-level comments, and a reply to the first comment. There
  \<^verbatim>\<open>delete_comment(comment1.id)\<close> does not return: it takes the lock, takes the comment
  out of the post and out of its author's list, and calls itself for the reply while it
  holds the lock, which is not re-entrant. The cascade that C1 describes is not reached.
  (For a comment without replies and for an unknown id the call returns, see
  \<open>delete_root_eq\<close>, \<open>delete_reply_eq\<close> and \<open>delete_comment_unfold\<close>.)
\<close>

theorem test_delete_comment_blocks:
  "create_post init_store ''Post Title'' =
     Some (\<lparr>id_post = 1, title = ''Post Title'', comments_post = []\<rparr>, store_one_post)
   \<and> add_comment store_one_post 1 ''User1'' ''First comment.'' None 0 = Some (Inr (Some 1), ex1)
   \<and> add_comment ex1 1 ''User2'' ''Second comment.'' None 0 = Some (Inr (Some 2), ex2)
   \<and> add_comment ex2 1 ''User3'' ''Reply to first comment.'' (Some 1) 0 = Some (Inr (Some 3), ex3)
   \<and> delete_comment ex3 1 = None"
proof -
  have "delete_comment ex3 1 = None"
    by (rule delete_with_replies_blocks [OF reachable_wf [OF reachable_ex3],
          where c = "(new_comment 1 ''User1'' ''First comment.'' 0 None)\<lparr>replies := [3]\<rparr>"])
      (simp_all add: ex_defs)
  with step0 step1 step2 step3 show ?thesis by simp
qed

section \<open>The depth cap (C2)\<close>

text \<open>
  C2. In a reachable store, for an existing post, an existing parent comment and an
  author and content that pass the input check, the parent has a depth \<open>d\<close> (the
  number of parent hops up to a comment without parent, which is what
  \<^verbatim>\<open>_get_comment_depth\<close> returns), and \<^verbatim>\<open>add_comment\<close> succeeds exactly when
  \<open>d \<le> 3\<close>: then it returns the new comment, whose depth is \<open>d + 1\<close>; when
  \<open>4 \<le> d\<close> it returns \<^verbatim>\<open>None\<close> and the store is unchanged. Every comment that
  \<^verbatim>\<open>add_comment\<close> creates, with or without parent, has a depth between 0 and 4.
\<close>

theorem depth_cap:
  assumes r: "reachable s" and valid: "u \<noteq> []" "strip tx \<noteq> []"
    and post: "map_of (posts s) k \<noteq> None" and p: "comments s p = Some pc"
  shows "\<exists>d. hops (comments s) p d \<and> get_comment_depth (comments s) p = Some d
      \<and> (d \<le> 3 \<longrightarrow>
            (\<exists>s'. add_comment s k u tx (Some p) now = Some (Inr (Some (next_comment_id s)), s')
                \<and> hops (comments s') (next_comment_id s) (Suc d)
                \<and> get_comment_depth (comments s') (next_comment_id s) = Some (Suc d)))
      \<and> (4 \<le> d \<longrightarrow> add_comment s k u tx (Some p) now = Some (Inr None, s))
      \<and> (\<forall>par n s'. add_comment s k u tx par now = Some (Inr (Some n), s') \<longrightarrow>
            (\<exists>e. hops (comments s') n e \<and> get_comment_depth (comments s') n = Some e \<and> e \<le> 4))"
proof -
  note wf = reachable_wf [OF r]
  from wf have g: "graph_ok (comments s) (next_comment_id s)" by (simp add: wf_store_def)
  from hops_total [OF g p] obtain d where d: "hops (comments s) p d" by blast
  have 1: "get_comment_depth (comments s) p = Some d" using g d by (rule depth_of_hops)
  have 2: "\<exists>s'. add_comment s k u tx (Some p) now = Some (Inr (Some (next_comment_id s)), s')
                \<and> hops (comments s') (next_comment_id s) (Suc d)
                \<and> get_comment_depth (comments s') (next_comment_id s) = Some (Suc d)" if le: "d \<le> 3"
  proof -
    from add_comment_reply_eq [OF wf valid post p d le, of "now"]
    obtain s' where s': "add_comment s k u tx (Some p) now = Some (Inr (Some (next_comment_id s)), s')"
      by blast
    from created_depth [OF r s'] obtain e where e: "hops (comments s') (next_comment_id s) e" by blast
    have "reachable s'" using r s' by (rule r_add_comment)
    then have g': "graph_ok (comments s') (next_comment_id s')"
      using reachable_wf by (simp add: wf_store_def)
    have "hops (comments s') (next_comment_id s) (Suc d)"
    proof -
      from add_comment_reply_eq [OF wf valid post p d le, of "now"] s'
      obtain t where m': "comments s' = (comments s)(next_comment_id s \<mapsto> new_comment (next_comment_id s) u tx now (Some p),
            p \<mapsto> pc\<lparr>replies := replies pc @ [next_comment_id s], collapsed := collapsed pc \<or> 10 < descendants t\<rparr>)"
        by auto
      show ?thesis unfolding m' using g p d by (rule hops_after_reply)
    qed
    with s' depth_of_hops [OF g' this] show ?thesis by blast
  qed
  have 3: "add_comment s k u tx (Some p) now = Some (Inr None, s)" if "4 \<le> d"
    using wf post d that by (rule add_comment_deep_eq)
  have 4: "\<exists>e. hops (comments s') n e \<and> get_comment_depth (comments s') n = Some e \<and> e \<le> 4"
    if res: "add_comment s k u tx par now = Some (Inr (Some n), s')" for par n s'
  proof -
    from created_depth [OF r res] obtain e where e: "hops (comments s') n e" "e \<le> 4" by blast
    have "reachable s'" using r res by (rule r_add_comment)
    then have "graph_ok (comments s') (next_comment_id s')"
      using reachable_wf by (simp add: wf_store_def)
    from depth_of_hops [OF this e(1)] e show ?thesis by blast
  qed
  from d 1 2 3 4 show ?thesis by blast
qed

theorem depth_cap_witness:
  "(\<exists>s'. add_comment ch1 1 ''User2'' ''Reply 1'' (Some 1) 0 = Some (Inr (Some 2), s')
        \<and> get_comment_depth (comments s') 2 = Some 1)
   \<and> get_comment_depth (comments ch5) 5 = Some 4
   \<and> add_comment ch5 1 ''User6'' ''This is a 5th-level reply.'' (Some 5) 0 = Some (Inr None, ch5)"
proof -
  have post1: "map_of (posts ch1) 1 \<noteq> None" and post5: "map_of (posts ch5) 1 \<noteq> None"
    by (simp_all add: ch_defs)
  have p1: "comments ch1 1 = Some (new_comment 1 ''User1'' ''This is a comment.'' 0 None)"
    by (simp add: ch_defs)
  have p5: "comments ch5 5 = Some (new_comment 5 ''User5'' ''Reply 4'' 0 (Some 4))"
    by (simp add: ch_defs)
  have u: "''User2'' \<noteq> []" "''User6'' \<noteq> []" by simp_all
  from depth_cap [OF reachable_ch1 u(1) not_blank_ch(2) post1 p1, of 0]
  obtain d where d: "hops (comments ch1) 1 d"
    "d \<le> 3 \<longrightarrow> (\<exists>s'. add_comment ch1 1 ''User2'' ''Reply 1'' (Some 1) 0 = Some (Inr (Some (next_comment_id ch1)), s')
        \<and> hops (comments s') (next_comment_id ch1) (Suc d)
        \<and> get_comment_depth (comments s') (next_comment_id ch1) = Some (Suc d))"
    by blast
  from hops_functional [OF d(1) hops_ch1] have "d = 0" .
  moreover have "next_comment_id ch1 = 2" by (simp add: ch_defs)
  ultimately have 1: "\<exists>s'. add_comment ch1 1 ''User2'' ''Reply 1'' (Some 1) 0 = Some (Inr (Some 2), s')
        \<and> get_comment_depth (comments s') 2 = Some 1"
    using d(2) by auto
  from depth_cap [OF reachable_ch5 u(2) not_blank_ch(6) post5 p5, of 0]
  obtain e where e: "hops (comments ch5) 5 e" "get_comment_depth (comments ch5) 5 = Some e"
    "4 \<le> e \<longrightarrow> add_comment ch5 1 ''User6'' ''This is a 5th-level reply.'' (Some 5) 0 = Some (Inr None, ch5)"
    by blast
  from hops_functional [OF e(1) hops_ch5] have "e = 4" by simp
  with e(2,3) 1 show ?thesis by simp
qed

section \<open>Auto-collapse (C3)\<close>

text \<open>
  C3. When \<^verbatim>\<open>add_comment\<close> returns a new comment from a reachable store, every comment
  that was in the store is still there, a collapsed flag that was set is still set, and
  only the flag of the direct parent can differ: for a reply, the parent's flag
  afterwards is its flag before or the truth of \<open>10 < descendants t\<close>, where \<open>t\<close> is
  the tree under the parent in the new store and \<open>descendants t\<close>, the number of all
  its descendants, is what \<^verbatim>\<open>_count_total_replies\<close> returns. In particular, on a parent
  without replies and not collapsed, at depth at most 3, the loop of
  \<^verbatim>\<open>test_auto_collapse\<close> with valid authors and contents appends every reply and leaves
  the parent collapsed exactly when it has added 11 replies or more.
\<close>

theorem auto_collapse:
  assumes r: "reachable s"
  shows "(add_comment s k u tx par now = Some (Inr (Some n), s') \<longrightarrow>
            (\<forall>j c. comments s j = Some c \<longrightarrow>
               (\<exists>c'. comments s' j = Some c' \<and> (collapsed c \<longrightarrow> collapsed c')
                  \<and> (par \<noteq> Some j \<longrightarrow> collapsed c' = collapsed c)))
          \<and> (\<forall>p. par = Some p \<longrightarrow>
               (\<exists>pc pc' t. comments s p = Some pc \<and> comments s' p = Some pc'
                  \<and> tree_of (comments s') p t
                  \<and> count_total_replies (comments s') p = Some (descendants t)
                  \<and> (collapsed pc' \<longleftrightarrow> collapsed pc \<or> 10 < descendants t))))
       \<and> (comments s p = Some pc \<and> replies pc = [] \<and> \<not> collapsed pc
            \<and> map_of (posts s) k \<noteq> None \<and> (\<exists>d \<le> 3. hops (comments s) p d)
            \<and> (\<forall>(u, tx, now) \<in> set xs. u \<noteq> [] \<and> strip tx \<noteq> []) \<longrightarrow>
            (\<exists>s' pc'. add_replies s k p xs = Some (Inr s') \<and> comments s' p = Some pc'
               \<and> length (replies pc') = length xs
               \<and> (collapsed pc' \<longleftrightarrow> 11 \<le> length xs)))"
proof (intro conjI impI)
  assume res: "add_comment s k u tx par now = Some (Inr (Some n), s')"
  from reachable_wf [OF r] have g: "graph_ok (comments s) (next_comment_id s)"
    by (simp add: wf_store_def)
  have fresh: "comments s (next_comment_id s) = None" using g by (rule graph_ok_fresh)
  show "\<forall>j c. comments s j = Some c \<longrightarrow>
               (\<exists>c'. comments s' j = Some c' \<and> (collapsed c \<longrightarrow> collapsed c')
                  \<and> (par \<noteq> Some j \<longrightarrow> collapsed c' = collapsed c))"
  proof (cases par)
    case None
    from root_flags [OF r res [unfolded None]] fresh None show ?thesis by auto
  next
    case (Some p)
    from reply_collapse [OF r res [unfolded Some]] fresh Some show ?thesis by auto
  qed
  show "\<forall>p. par = Some p \<longrightarrow>
               (\<exists>pc pc' t. comments s p = Some pc \<and> comments s' p = Some pc'
                  \<and> tree_of (comments s') p t
                  \<and> count_total_replies (comments s') p = Some (descendants t)
                  \<and> (collapsed pc' \<longleftrightarrow> collapsed pc \<or> 10 < descendants t))"
  proof (intro allI impI)
    fix p assume par: "par = Some p"
    from reply_collapse [OF r res [unfolded par]]
    obtain pc t where *: "comments s p = Some pc" "n = next_comment_id s"
      "tree_of (comments s') p t"
      "comments s' = (comments s)(n \<mapsto> new_comment n u tx now (Some p),
            p \<mapsto> pc\<lparr>replies := replies pc @ [n], collapsed := collapsed pc \<or> 10 < descendants t\<rparr>)"
      by blast
    have "comments s' p = Some (pc\<lparr>replies := replies pc @ [n],
        collapsed := collapsed pc \<or> 10 < descendants t\<rparr>)"
      by (simp add: *(4))
    with * count_total_replies_tree [OF *(3)]
    show "\<exists>pc pc' t. comments s p = Some pc \<and> comments s' p = Some pc'
                  \<and> tree_of (comments s') p t
                  \<and> count_total_replies (comments s') p = Some (descendants t)
                  \<and> (collapsed pc' \<longleftrightarrow> collapsed pc \<or> 10 < descendants t)"
      by (intro exI [of _ pc] exI [of _ t] exI [of _ "pc\<lparr>replies := replies pc @ [n],
        collapsed := collapsed pc \<or> 10 < descendants t\<rparr>"]) simp
  qed
next
  assume a: "comments s p = Some pc \<and> replies pc = [] \<and> \<not> collapsed pc
            \<and> map_of (posts s) k \<noteq> None \<and> (\<exists>d \<le> 3. hops (comments s) p d)
            \<and> (\<forall>(u, tx, now) \<in> set xs. u \<noteq> [] \<and> strip tx \<noteq> [])"
  then obtain d where d: "d \<le> 3" "hops (comments s) p d" by blast
  from add_replies_collapse [OF r _ d(2,1), of k pc xs] a
  obtain s' pc' where "add_replies s k p xs = Some (Inr s')" "comments s' p = Some pc'"
    "length (replies pc') = length xs" "collapsed pc' \<longleftrightarrow> 10 < length (replies pc')"
    by auto
  then show "\<exists>s' pc'. add_replies s k p xs = Some (Inr s') \<and> comments s' p = Some pc'
               \<and> length (replies pc') = length xs
               \<and> (collapsed pc' \<longleftrightarrow> 11 \<le> length xs)"
    by (intro exI [of _ s'] exI [of _ pc']) auto
qed

theorem auto_collapse_witness:
  "(\<exists>s' pc'. add_replies ex1 1 1 (replicate 11 (''User2'', ''Reply'', 0)) = Some (Inr s')
        \<and> comments s' 1 = Some pc' \<and> length (replies pc') = 11 \<and> collapsed pc')
   \<and> (\<exists>s' pc'. add_replies ex1 1 1 (replicate 10 (''User2'', ''Reply'', 0)) = Some (Inr s')
        \<and> comments s' 1 = Some pc' \<and> length (replies pc') = 10 \<and> \<not> collapsed pc')
   \<and> (\<exists>pc' t. comments ex3 1 = Some pc' \<and> tree_of (comments ex3) 1 t
        \<and> count_total_replies (comments ex3) 1 = Some (descendants t)
        \<and> (collapsed pc' \<longleftrightarrow> 10 < descendants t))"
proof -
  have blank: "strip ''Reply'' \<noteq> []" by (simp add: strip_def is_space_def)
  have pre: "comments ex1 1 = Some (new_comment 1 ''User1'' ''First comment.'' 0 None)
      \<and> replies (new_comment 1 ''User1'' ''First comment.'' 0 None) = []
      \<and> \<not> collapsed (new_comment 1 ''User1'' ''First comment.'' 0 None)
      \<and> map_of (posts ex1) 1 \<noteq> None \<and> (\<exists>d \<le> 3. hops (comments ex1) 1 d)"
    using hops_ex1 by (auto simp: ex_defs)
  have v: "\<forall>(u, tx, now) \<in> set (replicate j (''User2'', ''Reply'', 0 :: real)). u \<noteq> [] \<and> strip tx \<noteq> []" for j
    using blank by auto
  note th = auto_collapse [OF reachable_ex1, where k = 1 and p = 1
      and pc = "new_comment 1 ''User1'' ''First comment.'' 0 None"]
  from th [where xs = "replicate 11 (''User2'', ''Reply'', 0)", THEN conjunct2] pre v [of 11]
  have 1: "\<exists>s' pc'. add_replies ex1 1 1 (replicate 11 (''User2'', ''Reply'', 0)) = Some (Inr s')
        \<and> comments s' 1 = Some pc' \<and> length (replies pc') = 11 \<and> collapsed pc'"
    by simp
  from th [where xs = "replicate 10 (''User2'', ''Reply'', 0)", THEN conjunct2] pre v [of 10]
  have 2: "\<exists>s' pc'. add_replies ex1 1 1 (replicate 10 (''User2'', ''Reply'', 0)) = Some (Inr s')
        \<and> comments s' 1 = Some pc' \<and> length (replies pc') = 10 \<and> \<not> collapsed pc'"
    by simp
  from auto_collapse [OF reachable_ex2, THEN conjunct1, rule_format, OF step3, THEN conjunct2]
  have 3: "\<exists>pc' t. comments ex3 1 = Some pc' \<and> tree_of (comments ex3) 1 t
        \<and> count_total_replies (comments ex3) 1 = Some (descendants t)
        \<and> (collapsed pc' \<longleftrightarrow> 10 < descendants t)"
    by (auto simp: ex_defs)
  from 1 2 3 show ?thesis by blast
qed

section \<open>The flat view (C4)\<close>

text \<open>
  C4. For an existing post of a reachable store, the comments listed by the post are
  the roots of a forest \<open>ts\<close> of trees that the store represents, and
  \<^verbatim>\<open>get_comments_view(post_id, "flat")\<close> returns the depth-first pre-order listing of
  that forest in which the trees under a collapsed comment are skipped; the store is
  returned as it was. No proper descendant of a collapsed comment is in the result,
  and each of them is still in the index.
\<close>

theorem flat_view_preorder:
  assumes r: "reachable s" and post: "map_of (posts s) k = Some po"
  shows "\<exists>ts. list_all2 (tree_of (comments s)) (comments_post po) ts
     \<and> get_comments_view s k ''flat'' = Some (Inr (concat (map preorder ts)), s)
     \<and> (\<forall>a c x. comments s a = Some c \<and> collapsed c \<and> below (comments s) a x \<longrightarrow>
           x \<notin> set (concat (map preorder ts)) \<and> comments s x \<noteq> None)"
proof -
  from reachable_wf [OF r] have free: "\<not> lock s"
    and g: "graph_ok (comments s) (next_comment_id s)"
    and po: "posts_ok (posts s) (comments s) (next_post_id s)"
    by (simp_all add: wf_store_def)
  have roots: "\<exists>c. comments s a = Some c \<and> parent_comment_id c = None"
    if "a \<in> set (comments_post po)" for a
    using po post that by (rule posts_ok_root)
  have "\<exists>t. tree_of (comments s) a t" if "a \<in> set (comments_post po)" for a
    using roots [OF that] tree_of_exists [OF g] by blast
  then obtain ts where ts: "list_all2 (tree_of (comments s)) (comments_post po) ts"
    using list_all2_exists [of "comments_post po" "tree_of (comments s)"] by blast
  have view: "get_comments_view s k ''flat'' = Some (Inr (concat (map preorder ts)), s)"
    using free post flatten_comments_trees [OF ts] by (rule get_comments_view_flat)
  have hidden: "x \<notin> set (concat (map preorder ts)) \<and> comments s x \<noteq> None"
    if "comments s a = Some c" "collapsed c" "below (comments s) a x" for a c x
    using hidden_below [OF g ts roots that(3)] below_in_index [OF g that(3)] that(1,2) by blast
  from ts view hidden show ?thesis by blast
qed

theorem flat_view_preorder_witness:
  "get_comments_view ex3 1 ''flat'' = Some (Inr [1, 3, 2], ex3)
   \<and> get_comments_view ex3_collapsed 1 ''flat'' = Some (Inr [1, 2], ex3_collapsed)
   \<and> comments ex3_collapsed 3 \<noteq> None"
proof -
  have po: "map_of (posts ex3) 1 = Some \<lparr>id_post = 1, title = ''Post Title'', comments_post = [1, 2]\<rparr>"
    "map_of (posts ex3_collapsed) 1 = Some \<lparr>id_post = 1, title = ''Post Title'', comments_post = [1, 2]\<rparr>"
    by (simp_all add: ex_defs)
  from flat_view_preorder [OF reachable_ex3 po(1)]
  obtain ts where ts: "list_all2 (tree_of (comments ex3)) [1, 2] ts"
    "get_comments_view ex3 1 ''flat'' = Some (Inr (concat (map preorder ts)), ex3)" by auto
  from forest_functional [OF ts(1) trees_ex3] ts(2)
  have 1: "get_comments_view ex3 1 ''flat'' = Some (Inr [1, 3, 2], ex3)" by simp
  from flat_view_preorder [OF reachable_ex3_collapsed po(2)]
  obtain us where us: "list_all2 (tree_of (comments ex3_collapsed)) [1, 2] us"
    "get_comments_view ex3_collapsed 1 ''flat'' = Some (Inr (concat (map preorder us)), ex3_collapsed)"
    "\<forall>a c x. comments ex3_collapsed a = Some c \<and> collapsed c \<and> below (comments ex3_collapsed) a x \<longrightarrow>
           x \<notin> set (concat (map preorder us)) \<and> comments ex3_collapsed x \<noteq> None" by auto
  from forest_functional [OF us(1) trees_ex3_collapsed] us(2)
  have 2: "get_comments_view ex3_collapsed 1 ''flat'' = Some (Inr [1, 2], ex3_collapsed)" by simp
  have c1: "comments ex3_collapsed 1 =
      Some ((new_comment 1 ''User1'' ''First comment.'' 0 None)\<lparr>replies := [3], collapsed := True\<rparr>)"
    by (simp add: ex_defs)
  then have "below (comments ex3_collapsed) 1 3" by (rule below_child) simp
  with c1 have "comments ex3_collapsed 1 =
      Some ((new_comment 1 ''User1'' ''First comment.'' 0 None)\<lparr>replies := [3], collapsed := True\<rparr>)
    \<and> collapsed ((new_comment 1 ''User1'' ''First comment.'' 0 None)\<lparr>replies := [3], collapsed := True\<rparr>)
    \<and> below (comments ex3_collapsed) 1 3" by simp
  from us(3) [rule_format, OF this] have 3: "comments ex3_collapsed 3 \<noteq> None" by simp
  from 1 2 3 show ?thesis by simp
qed

section \<open>Rejected input (C5)\<close>

text \<open>
  C5. \<^verbatim>\<open>add_comment\<close> returns the absence value \<^verbatim>\<open>None\<close> and leaves the whole store as it
  was, the comment-id counter included, whenever the user string is empty, or the
  content is empty after \<^verbatim>\<open>strip()\<close> (by \<open>strip_empty_iff\<close>: it is made of
  whitespace only), or the post id is unknown, or a given parent id is unknown.
  The call is made by a client, with the lock free.
\<close>

theorem add_comment_rejects:
  assumes "\<not> lock s"
    and "u = [] \<or> strip tx = [] \<or> map_of (posts s) post_id = None
         \<or> (\<exists>pid. parent = Some pid \<and> comments s pid = None)"
  shows "add_comment s post_id u tx parent now = Some (Inr None, s)"
  using assms by (auto simp: add_comment_def with_lock_def)

theorem add_comment_rejects_witness:
  "strip ''   '' = []
   \<and> add_comment store_one_post 1 ''User1'' ''   '' None 0 = Some (Inr None, store_one_post)
   \<and> next_comment_id store_one_post = 1"
  using add_comment_rejects [of store_one_post "''User1''" "''   ''" 1 None 0]
  by (simp add: store_one_post_def strip_def is_space_def)

section \<open>The per-user index (C6)\<close>

text \<open>
  C6. In every store reached by the operations, the list kept for a user holds exactly
  the ids of the stored comments whose author is that user, each once and in increasing
  order of id, which is the order of authoring since ids come from a counter that only
  grows; \<^verbatim>\<open>get_user_comments\<close> returns that list of comments and leaves the store as it
  is, and it returns the empty list for a user without entry, of whom the store holds
  no comment.
\<close>

theorem user_index_exact:
  assumes "reachable s"
  shows "(\<forall>l. user_comments s u = Some l \<longrightarrow>
            sorted l \<and> distinct l
            \<and> set l = {i. \<exists>c. comments s i = Some c \<and> user c = u}
            \<and> get_user_comments s u = Some (Inr l, s))
       \<and> (user_comments s u = None \<longrightarrow>
            (\<forall>i c. comments s i = Some c \<longrightarrow> user c \<noteq> u)
            \<and> get_user_comments s u = Some (Inr [], s))"
proof -
  from reachable_wf [OF assms] have free: "\<not> lock s"
    and us: "users_ok (user_comments s) (comments s)"
    by (simp_all add: wf_store_def)
  have known: "sorted l \<and> distinct l
            \<and> set l = {i. \<exists>c. comments s i = Some c \<and> user c = u}
            \<and> get_user_comments s u = Some (Inr l, s)" if l: "user_comments s u = Some l" for l
  proof -
    have "set l = {i. \<exists>c. comments s i = Some c \<and> user c = u}"
    proof (intro set_eqI iffI)
      fix i assume "i \<in> set l"
      from users_ok_member [OF us l this] show "i \<in> {i. \<exists>c. comments s i = Some c \<and> user c = u}"
        by simp
    next
      fix i assume "i \<in> {i. \<exists>c. comments s i = Some c \<and> user c = u}"
      then obtain c where c: "comments s i = Some c" "user c = u" by blast
      from users_ok_listed [OF us c(1)] c(2) l show "i \<in> set l" by simp
    qed
    moreover have "lookup_all (comments s) l = Inr l"
      using users_ok_member [OF us l] by (intro lookup_all_present) auto
    ultimately show ?thesis
      using users_ok_sorted [OF us l] l by (simp add: get_user_comments_eq [OF free])
  qed
  have unknown: "(\<forall>i c. comments s i = Some c \<longrightarrow> user c \<noteq> u)
            \<and> get_user_comments s u = Some (Inr [], s)" if n: "user_comments s u = None"
  proof -
    have "user c \<noteq> u" if "comments s i = Some c" for i c
      using users_ok_listed [OF us that] n by auto
    with n show ?thesis by (simp add: get_user_comments_eq [OF free])
  qed
  from known unknown show ?thesis by blast
qed

theorem user_index_exact_witness:
  "reachable ex_users
   \<and> get_user_comments ex_users ''User1'' = Some (Inr [1, 3], ex_users)
   \<and> get_user_comments ex_users ''User2'' = Some (Inr [2], ex_users)
   \<and> get_user_comments ex_users ''Nobody'' = Some (Inr [], ex_users)"
  using user_index_exact [OF reachable_ex_users, of "''User1''"]
    user_index_exact [OF reachable_ex_users, of "''User2''"]
    user_index_exact [OF reachable_ex_users, of "''Nobody''"] reachable_ex_users
  by (simp add: ex_defs)

section \<open>Votes (C7)\<close>

text \<open>
  C7. For a comment in the store, \<^verbatim>\<open>upvote_comment\<close> returns \<^verbatim>\<open>True\<close> and adds one to
  its \<open>vote_count\<close>, \<^verbatim>\<open>downvote_comment\<close> returns \<^verbatim>\<open>True\<close> and subtracts one, whatever the
  integer is (no floor, no ceiling), and a downvote after an upvote gives back the
  store the two calls started from: nothing else has changed. For an id that the store
  lacks each call returns \<^verbatim>\<open>False\<close> and changes nothing.
\<close>

theorem vote_roundtrip:
  assumes "\<not> lock s"
  shows "(comments s a = Some c \<longrightarrow>
            upvote_comment s a =
              Some (True, s\<lparr>comments := (comments s)(a \<mapsto> c\<lparr>vote_count := vote_count c + 1\<rparr>)\<rparr>)
          \<and> downvote_comment s a =
              Some (True, s\<lparr>comments := (comments s)(a \<mapsto> c\<lparr>vote_count := vote_count c - 1\<rparr>)\<rparr>)
          \<and> downvote_comment
               (s\<lparr>comments := (comments s)(a \<mapsto> c\<lparr>vote_count := vote_count c + 1\<rparr>)\<rparr>) a =
              Some (True, s))
       \<and> (comments s a = None \<longrightarrow>
            upvote_comment s a = Some (False, s) \<and> downvote_comment s a = Some (False, s))"
  using assms by (auto simp: upvote_comment_def downvote_comment_def with_lock_def map_upd_triv)

theorem vote_roundtrip_witness:
  "upvote_comment ex1 1 = Some (True, ex1\<lparr>comments := (comments ex1)(1 \<mapsto>
       (new_comment 1 ''User1'' ''First comment.'' 0 None)\<lparr>vote_count := 1\<rparr>)\<rparr>)
   \<and> downvote_comment (ex1\<lparr>comments := (comments ex1)(1 \<mapsto>
       (new_comment 1 ''User1'' ''First comment.'' 0 None)\<lparr>vote_count := 1\<rparr>)\<rparr>) 1 = Some (True, ex1)
   \<and> downvote_comment ex1 1 = Some (True, ex1\<lparr>comments := (comments ex1)(1 \<mapsto>
       (new_comment 1 ''User1'' ''First comment.'' 0 None)\<lparr>vote_count := - 1\<rparr>)\<rparr>)
   \<and> upvote_comment ex1 7 = Some (False, ex1)"
  using vote_roundtrip [of ex1 1 "new_comment 1 ''User1'' ''First comment.'' 0 None"]
    vote_roundtrip [of ex1 7]
  by (simp add: ex_defs)

section \<open>Errors of the view (C8)\<close>

text \<open>
  C8, as the code has it. For an unknown post id \<^verbatim>\<open>get_comments_view\<close> returns the empty
  list; for a known post id and a \<open>view_type\<close> that is neither \<^verbatim>\<open>"tree"\<close> nor
  \<^verbatim>\<open>"flat"\<close> it raises \<^verbatim>\<open>ValueError\<close>. The store is unchanged in both cases.
\<close>

theorem get_comments_view_errors:
  assumes "\<not> lock s"
  shows "(map_of (posts s) post_id = None \<longrightarrow> get_comments_view s post_id v = Some (Inr [], s))
       \<and> (map_of (posts s) post_id \<noteq> None \<and> v \<noteq> ''tree'' \<and> v \<noteq> ''flat'' \<longrightarrow>
            get_comments_view s post_id v = Some (Inl ValueError, s))"
  using assms by (auto simp: get_comments_view_def with_lock_def)

theorem get_comments_view_errors_witness:
  "get_comments_view store_one_post 2 ''tree'' = Some (Inr [], store_one_post)
   \<and> get_comments_view store_one_post 1 ''list'' = Some (Inl ValueError, store_one_post)"
  using get_comments_view_errors [of store_one_post 2 "''tree''"]
    get_comments_view_errors [of store_one_post 1 "''list''"]
  by (simp add: store_one_post_def)

text \<open>
  C8 as stated fails where both of its conditions meet: with an unknown post id and a
  \<open>view_type\<close> that is neither \<^verbatim>\<open>"tree"\<close> nor \<^verbatim>\<open>"flat"\<close> the call returns the empty list
  and raises nothing.
\<close>

theorem invalid_view_type_unknown_post:
  "get_comments_view store_one_post 2 ''list'' = Some (Inr [], store_one_post)"
  by (simp add: get_comments_view_def with_lock_def store_one_post_def)

section \<open>The lock and the cascade (C9)\<close>

text \<open>
  C9, what the code does. Every public operation runs its body under \<open>with_lock\<close>,
  which releases the lock on every way out; but in every reachable store
  \<^verbatim>\<open>delete_comment\<close> on a comment that has at least one reply does not return, because
  the recursive call for the first reply waits for the lock that the outer call holds:
  \<^verbatim>\<open>self.lock\<close> is a \<^verbatim>\<open>threading.Lock()\<close>, not a re-entrant lock.
\<close>

theorem delete_with_replies_never_returns:
  assumes "reachable s" "comments s a = Some c" "replies c \<noteq> []"
  shows "delete_comment s a = None"
  using reachable_wf [OF assms(1)] assms(2,3) by (rule delete_with_replies_blocks)

theorem delete_with_replies_never_returns_witness:
  "reachable sp2 \<and> delete_comment sp2 1 = None"
  using delete_with_replies_never_returns [OF reachable_sp2,
      of 1 "(new_comment 1 ''Alice'' ''hi'' 0 None)\<lparr>replies := [2]\<rparr>"] reachable_sp2
  by (simp add: sp_defs)

section \<open>Unknown post before view type (C10)\<close>

text \<open>
  C10. For a post id that the store lacks, \<^verbatim>\<open>get_comments_view\<close> returns the empty list
  for every \<open>view_type\<close>; and whenever the call raises an error, the post exists (and
  the error is \<^verbatim>\<open>ValueError\<close> for a \<open>view_type\<close> other than \<^verbatim>\<open>"tree"\<close> and \<^verbatim>\<open>"flat"\<close>).
\<close>

theorem unknown_post_before_view_type:
  "(\<not> lock s \<and> map_of (posts s) post_id = None \<longrightarrow>
      get_comments_view s post_id v = Some (Inr [], s))
   \<and> (get_comments_view s post_id v = Some (Inl e, s') \<longrightarrow>
      map_of (posts s) post_id \<noteq> None \<and> v \<noteq> ''tree'' \<and> v \<noteq> ''flat'' \<and> e = ValueError)"
  by (auto simp: get_comments_view_def with_lock_def split: if_splits option.splits Option.bind_splits)

theorem unknown_post_before_view_type_witness:
  "get_comments_view init_store 7 ''bogus'' = Some (Inr [], init_store)
   \<and> get_comments_view store_one_post 1 ''bogus'' = Some (Inl ValueError, store_one_post)
   \<and> map_of (posts store_one_post) 1 \<noteq> None"
  using unknown_post_before_view_type [of init_store 7 "''bogus''"]
    unknown_post_before_view_type [of store_one_post 1 "''bogus''" ValueError store_one_post]
  by (simp add: init_store_def store_one_post_def get_comments_view_def with_lock_def)

end
